theory Spec2Isabelle
  imports Main
begin

section \<open>Data model\<close>

text \<open>
  The program is a Python 2 minesweeper: class \<open>Board\<close> holds the dimensions and a list
  of rows, each row a list of two-character strings (value character, then \<open>H\<close> or
  \<open>S\<close>); class \<open>Game\<close> wraps a board. Exceptions are values of type \<open>error\<close>; the two
  built-in exceptions the code can meet (\<open>IndexError\<close> on a list or string read out of
  range, \<open>IOError\<close> raised by \<open>save_board\<close>) are part of it. A method that assigns to
  \<open>self.board\<close> returns the board together with its result, so that what an exception
  leaves behind is visible.
\<close>

datatype GameStatus = NotStarted | InProgress | Win | Lose

datatype error =
    SizeOutOfBoundException
  | ScatterException
  | BoardFormatException
  | DimensionsMismatchException
  | IllegalIndicesException
  | IllegalMoveException
  | IndexError
  | IOError

record Board =
  rows :: int
  columns :: int
  board :: "string list list"

type_synonym cell = "int \<times> int"

subsection \<open>Python list and string primitives\<close>

text \<open>Position of Python index \<open>i\<close> in a sequence of length \<open>n\<close>: a negative index counts
  from the end, anything outside \<open>-n .. n-1\<close> raises \<open>IndexError\<close>.\<close>

definition py_index :: "nat \<Rightarrow> int \<Rightarrow> error + nat" where
  "py_index n i =
     (if 0 \<le> i \<and> i < int n then Inr (nat i)
      else if i < 0 \<and> - int n \<le> i then Inr (nat (int n + i))
      else Inl IndexError)"

definition py_get :: "'a list \<Rightarrow> int \<Rightarrow> error + 'a" where
  "py_get xs i = (case py_index (length xs) i of Inl e \<Rightarrow> Inl e | Inr k \<Rightarrow> Inr (xs ! k))"

text \<open>\<open>str.strip()\<close> removes leading and trailing whitespace: space, tab, line feed,
  vertical tab, form feed, carriage return.\<close>

definition is_space :: "char \<Rightarrow> bool" where
  "is_space ch = (ch \<in> set [CHR '' '', CHR 0x09, CHR 0x0A, CHR 0x0B, CHR 0x0C, CHR 0x0D])"

definition strip :: "string \<Rightarrow> string" where
  "strip s = rev (dropWhile is_space (rev (dropWhile is_space s)))"

text \<open>\<open>l.split(' ')\<close> cuts at every single space; two adjacent spaces give an empty
  token, and the empty string gives one empty token.\<close>

fun split_space :: "string \<Rightarrow> string list" where
  "split_space [] = [[]]"
| "split_space (ch # cs) =
     (if ch = CHR '' '' then [] # split_space cs
      else (case split_space cs of [] \<Rightarrow> [[ch]] | t # ts \<Rightarrow> (ch # t) # ts))"

text \<open>\<open>str(n)\<close> and \<open>'%d' % n\<close> for an integer: decimal digits, a minus sign when negative.\<close>

fun digits :: "nat \<Rightarrow> string" where
  "digits n =
     (if n < 10 then [''0123456789'' ! n]
      else digits (n div 10) @ [''0123456789'' ! (n mod 10)])"

declare digits.simps [simp del]

definition str_int :: "int \<Rightarrow> string" where
  "str_int n = (if n < 0 then CHR ''-'' # digits (nat (- n)) else digits (nat n))"

text \<open>Iterating over a text file yields its lines, each with its line feed (the last one
  without, when the file does not end in one).\<close>

fun py_lines :: "string \<Rightarrow> string list" where
  "py_lines [] = []"
| "py_lines (ch # cs) =
     (if ch = CHR 0x0A then [ch] # py_lines cs
      else (case py_lines cs of [] \<Rightarrow> [[ch]] | l # ls \<Rightarrow> (ch # l) # ls))"

text \<open>\<open>for i in range(self.rows): for j in range(self.columns)\<close>: the coordinates in
  row-major order.\<close>

definition all_cells :: "Board \<Rightarrow> cell list" where
  "all_cells b = List.product [0 .. rows b - 1] [0 .. columns b - 1]"

section \<open>Board\<close>

subsection \<open>Construction\<close>

definition init_Board :: "int \<Rightarrow> int \<Rightarrow> error + Board" where
  "init_Board rws cls =
     (if rws < 1 \<or> rws > 20 \<or> cls < 2 \<or> cls > 50 then Inl SizeOutOfBoundException
      else Inr \<lparr> rows = rws, columns = cls,
                 board = replicate (nat rws) (replicate (nat cls) ''0H'') \<rparr>)"

subsection \<open>Cell access\<close>

definition checkIndices :: "Board \<Rightarrow> int \<Rightarrow> int \<Rightarrow> error + unit" where
  "checkIndices b row column =
     (if row < 0 \<or> row \<ge> rows b \<or> column < 0 \<or> column \<ge> columns b
      then Inl IllegalIndicesException else Inr ())"

text \<open>The expression \<open>self.board[row][column]\<close>.\<close>

definition cell_at :: "Board \<Rightarrow> int \<Rightarrow> int \<Rightarrow> error + string" where
  "cell_at b row column =
     (case py_get (board b) row of Inl e \<Rightarrow> Inl e | Inr r \<Rightarrow> py_get r column)"

text \<open>The assignment \<open>self.board[row][column] = v\<close>.\<close>

definition set_cell :: "Board \<Rightarrow> int \<Rightarrow> int \<Rightarrow> string \<Rightarrow> error + Board" where
  "set_cell b row column v =
     (case py_index (length (board b)) row of Inl e \<Rightarrow> Inl e
      | Inr i \<Rightarrow>
          (case py_index (length (board b ! i)) column of Inl e \<Rightarrow> Inl e
           | Inr j \<Rightarrow> Inr (b\<lparr>board := (board b)[i := (board b ! i)[j := v]]\<rparr>)))"

definition get_value :: "Board \<Rightarrow> int \<Rightarrow> int \<Rightarrow> error + char" where
  "get_value b row column =
     (case checkIndices b row column of Inl e \<Rightarrow> Inl e
      | Inr _ \<Rightarrow>
          (case cell_at b row column of Inl e \<Rightarrow> Inl e | Inr c \<Rightarrow> py_get c 0))"

definition is_hidden :: "Board \<Rightarrow> int \<Rightarrow> int \<Rightarrow> error + char" where
  "is_hidden b row column =
     (case checkIndices b row column of Inl e \<Rightarrow> Inl e
      | Inr _ \<Rightarrow>
          (case cell_at b row column of Inl e \<Rightarrow> Inl e
           | Inr c \<Rightarrow>
               (case py_get c 1 of Inl e \<Rightarrow> Inl e
                | Inr h \<Rightarrow> if h = CHR ''H'' then Inr (CHR ''H'') else Inr (CHR ''S''))))"

definition uncover :: "Board \<Rightarrow> int \<Rightarrow> int \<Rightarrow> (error + unit) \<times> Board" where
  "uncover b row column =
     (case checkIndices b row column of Inl e \<Rightarrow> (Inl e, b)
      | Inr _ \<Rightarrow>
          (case is_hidden b row column of Inl e \<Rightarrow> (Inl e, b)
           | Inr h \<Rightarrow>
               if h = CHR ''S'' then (Inl IllegalMoveException, b)
               else
                 (case cell_at b row column of Inl e \<Rightarrow> (Inl e, b)
                  | Inr c \<Rightarrow>
                      (case py_get c 0 of Inl e \<Rightarrow> (Inl e, b)
                       | Inr v \<Rightarrow>
                           (case set_cell b row column [v, CHR ''S''] of
                              Inl e \<Rightarrow> (Inl e, b)
                            | Inr b' \<Rightarrow> (Inr (), b'))))))"

subsection \<open>Loading from text\<close>

text \<open>The inner loop of \<open>load_board\<close> over the tokens of one line.\<close>

fun check_cells :: "string list \<Rightarrow> error + unit" where
  "check_cells [] = Inr ()"
| "check_cells (c # cs) =
     (if length c \<noteq> 2 then Inl BoardFormatException
      else if c ! 0 \<notin> set ''012345678*'' \<or> c ! 1 \<notin> set ''HS'' then Inl BoardFormatException
      else check_cells cs)"

text \<open>The outer loop, carrying the board and \<open>nRows\<close>.\<close>

fun load_loop :: "Board \<Rightarrow> int \<Rightarrow> string list \<Rightarrow> (error + int) \<times> Board" where
  "load_loop b nRows [] = (Inr nRows, b)"
| "load_loop b nRows (line # ls) =
     (let l = strip line in
      if length l = 0 then load_loop b nRows ls
      else
        (let row = split_space l in
         case check_cells row of Inl e \<Rightarrow> (Inl e, b)
         | Inr _ \<Rightarrow>
             if int (length row) \<noteq> columns b then (Inl DimensionsMismatchException, b)
             else load_loop (b\<lparr>board := board b @ [row]\<rparr>) (nRows + 1) ls))"

definition load_board :: "Board \<Rightarrow> string list \<Rightarrow> (error + unit) \<times> Board" where
  "load_board b lines =
     (case load_loop (b\<lparr>board := []\<rparr>) 0 lines of
        (Inl e, b') \<Rightarrow> (Inl e, b')
      | (Inr nRows, b') \<Rightarrow>
          if nRows = 0 then (Inl BoardFormatException, b')
          else if nRows \<noteq> rows b' then (Inl DimensionsMismatchException, b')
          else (Inr (), b'))"

subsection \<open>Saving to text\<close>

text \<open>\<open>save_board\<close> builds the whole text in \<open>output\<close> and writes it; the model returns the
  text. Opening and writing the file are the environment's; any exception inside the
  \<open>try\<close> block is turned into \<open>IOError\<close>.\<close>

fun save_row :: "Board \<Rightarrow> int \<Rightarrow> int list \<Rightarrow> string \<Rightarrow> error + string" where
  "save_row b i [] output = Inr output"
| "save_row b i (j # js) output =
     (case cell_at b i j of Inl e \<Rightarrow> Inl e
      | Inr c \<Rightarrow> save_row b i js (output @ c @ '' ''))"

fun save_rows :: "Board \<Rightarrow> int list \<Rightarrow> string \<Rightarrow> error + string" where
  "save_rows b [] output = Inr output"
| "save_rows b (i # is) output =
     (case save_row b i [0 .. columns b - 1] output of Inl e \<Rightarrow> Inl e
      | Inr output' \<Rightarrow> save_rows b is (output' @ [CHR 0x0A]))"

definition save_board :: "Board \<Rightarrow> error + string" where
  "save_board b =
     (case save_rows b [0 .. rows b - 1]
             (str_int (rows b) @ [CHR 0x0A] @ str_int (columns b) @ [CHR 0x0A]) of
        Inl e \<Rightarrow> Inl IOError
      | Inr output \<Rightarrow> Inr output)"

subsection \<open>The ripple sequence\<close>

definition grid_cells :: "Board \<Rightarrow> cell set" where
  "grid_cells b = {0 ..< rows b} \<times> {0 ..< columns b}"

definition get_neighbours :: "Board \<Rightarrow> cell \<Rightarrow> cell list" where
  "get_neighbours b cl =
     (let r = fst cl; c = snd cl in
      filter (\<lambda>(x, y). x \<ge> 0 \<and> x < rows b \<and> y \<ge> 0 \<and> y < columns b)
        [(r - 1, c), (r - 1, c + 1), (r, c + 1), (r + 1, c + 1),
         (r + 1, c), (r + 1, c - 1), (r, c - 1), (r - 1, c - 1)])"

fun hidden_only :: "Board \<Rightarrow> cell list \<Rightarrow> error + cell list" where
  "hidden_only b [] = Inr []"
| "hidden_only b (x # xs) =
     (case is_hidden b (fst x) (snd x) of Inl e \<Rightarrow> Inl e
      | Inr h \<Rightarrow>
          (case hidden_only b xs of Inl e \<Rightarrow> Inl e
           | Inr ys \<Rightarrow> Inr (if h = CHR ''H'' then x # ys else ys)))"

lemma hidden_only_subset: "hidden_only b xs = Inr ys \<Longrightarrow> set ys \<subseteq> set xs"
  by (induction xs arbitrary: ys) (auto split: sum.splits if_splits)

lemma get_neighbours_in_grid: "set (get_neighbours b cl) \<subseteq> grid_cells b"
  by (auto simp: get_neighbours_def grid_cells_def Let_def)

lemma finite_grid_cells: "finite (grid_cells b)"
  by (simp add: grid_cells_def)

definition ripple_measure :: "Board \<times> cell list \<times> cell list \<Rightarrow> nat \<times> nat" where
  "ripple_measure = (\<lambda>(b, s, q). (card (grid_cells b - (set s \<union> set q)), length q))"

lemma ripple_step_skip:
  "((b, s @ [c], q), (b, s, c # q)) \<in> inv_image (less_than <*lex*> less_than) ripple_measure"
proof -
  have "set (s @ [c]) \<union> set q = set s \<union> set (c # q)" by auto
  then show ?thesis by (simp add: ripple_measure_def)
qed

lemma ripple_step_expand:
  assumes hn: "hidden_only b (get_neighbours b c) = Inr hn"
  shows "((b, s @ [c], q @ filter (\<lambda>x. x \<notin> set (s @ [c]) \<and> x \<notin> set q) hn), (b, s, c # q))
           \<in> inv_image (less_than <*lex*> less_than) ripple_measure"
proof -
  let ?new = "filter (\<lambda>x. x \<notin> set (s @ [c]) \<and> x \<notin> set q) hn"
  let ?old = "set s \<union> set (c # q)"
  have sub: "set hn \<subseteq> grid_cells b"
    using hidden_only_subset [OF hn] get_neighbours_in_grid by blast
  have eq: "set (s @ [c]) \<union> set (q @ ?new) = ?old \<union> set ?new" by auto
  show ?thesis
  proof (cases "?new = []")
    case True
    then show ?thesis using eq by (simp add: ripple_measure_def)
  next
    case False
    then have "\<exists>y. y \<in> set ?new" by (simp only: ex_in_conv set_empty not_False_eq_True)
    then obtain y where y: "y \<in> set ?new" ..
    then have yg: "y \<in> grid_cells b" and yn: "y \<notin> ?old" using sub by auto
    have "grid_cells b - (?old \<union> set ?new) \<subset> grid_cells b - ?old"
      using y yg yn by blast
    then have "card (grid_cells b - (?old \<union> set ?new)) < card (grid_cells b - ?old)"
      by (intro psubset_card_mono) (simp_all add: finite_grid_cells)
    then show ?thesis using eq by (simp add: ripple_measure_def)
  qed
qed

function ripple_loop :: "Board \<Rightarrow> cell list \<Rightarrow> cell list \<Rightarrow> error + cell list" where
  "ripple_loop b ripple_seq [] = Inr ripple_seq"
| "ripple_loop b ripple_seq (current_cell # queue) =
     (let ripple_seq' = ripple_seq @ [current_cell] in
      case get_value b (fst current_cell) (snd current_cell) of Inl e \<Rightarrow> Inl e
      | Inr v \<Rightarrow>
          if v \<noteq> CHR ''0'' then ripple_loop b ripple_seq' queue
          else
            (case hidden_only b (get_neighbours b current_cell) of Inl e \<Rightarrow> Inl e
             | Inr hidden_neighbours \<Rightarrow>
                 ripple_loop b ripple_seq'
                   (queue @ filter (\<lambda>x. x \<notin> set ripple_seq' \<and> x \<notin> set queue)
                              hidden_neighbours)))"
  by pat_completeness auto

termination
  apply (relation "inv_image (less_than <*lex*> less_than) ripple_measure")
    apply (intro wf_inv_image wf_lex_prod wf_less_than)
   apply (simp only: ripple_step_skip)
  apply (simp only: ripple_step_expand)
  done

definition ripple_sequence :: "Board \<Rightarrow> int \<Rightarrow> int \<Rightarrow> error + cell list" where
  "ripple_sequence b row column =
     (case checkIndices b row column of Inl e \<Rightarrow> Inl e
      | Inr _ \<Rightarrow>
          (case ripple_loop b [] [(row, column)] of Inl e \<Rightarrow> Inl e
           | Inr ripple_seq \<Rightarrow> Inr (drop 1 ripple_seq)))"

subsection \<open>Scattering mines\<close>

text \<open>The check that the board is in its start state.\<close>

fun check_start :: "Board \<Rightarrow> cell list \<Rightarrow> error + unit" where
  "check_start b [] = Inr ()"
| "check_start b (x # xs) =
     (case get_value b (fst x) (snd x) of Inl e \<Rightarrow> Inl e
      | Inr v \<Rightarrow>
          if v \<noteq> CHR ''0'' then Inl ScatterException
          else
            (case is_hidden b (fst x) (snd x) of Inl e \<Rightarrow> Inl e
             | Inr h \<Rightarrow>
                 if h \<noteq> CHR ''H'' then Inl ScatterException else check_start b xs))"

text \<open>
  The \<open>while mines_placed < mines\<close> loop. The random source is its argument: the list
  of pairs that the successive calls \<open>(random.randint(0, rows-1), random.randint(0,
  columns-1))\<close> return. The loop has no bound of its own; when the draws are used up
  before enough mines are placed the result is \<open>None\<close>.
\<close>

fun scatter :: "Board \<Rightarrow> int \<Rightarrow> int \<Rightarrow> cell list \<Rightarrow> ((error + unit) \<times> Board) option" where
  "scatter b mines_placed mines [] =
     (if mines_placed < mines then None else Some (Inr (), b))"
| "scatter b mines_placed mines (x # draws) =
     (if mines_placed < mines then
        (case get_value b (fst x) (snd x) of Inl e \<Rightarrow> Some (Inl e, b)
         | Inr v \<Rightarrow>
             if v \<noteq> CHR ''*'' then
               (case set_cell b (fst x) (snd x) ''*H'' of Inl e \<Rightarrow> Some (Inl e, b)
                | Inr b' \<Rightarrow> scatter b' (mines_placed + 1) mines draws)
             else scatter b mines_placed mines draws)
      else Some (Inr (), b))"

text \<open>The inner loop of the digit update: \<open>mines_touching\<close> over \<open>neighbour_coords\<close>.\<close>

fun mines_touching :: "Board \<Rightarrow> cell list \<Rightarrow> int \<Rightarrow> error + int" where
  "mines_touching b [] n = Inr n"
| "mines_touching b (x # xs) n =
     (case cell_at b (fst x) (snd x) of Inl e \<Rightarrow> Inl e
      | Inr c \<Rightarrow>
          (case py_get c 0 of Inl e \<Rightarrow> Inl e
           | Inr v \<Rightarrow> mines_touching b xs (if v = CHR ''*'' then n + 1 else n)))"

definition neighbour_coords :: "Board \<Rightarrow> int \<Rightarrow> int \<Rightarrow> cell list" where
  "neighbour_coords b i j =
     filter (\<lambda>(x, y). x \<ge> 0 \<and> y \<ge> 0 \<and> x < rows b \<and> y < columns b)
       [(i + 1, j + 1), (i - 1, j - 1), (i + 1, j - 1), (i - 1, j + 1),
        (i + 1, j), (i - 1, j), (i, j - 1), (i, j + 1)]"

fun update_digits :: "Board \<Rightarrow> cell list \<Rightarrow> (error + unit) \<times> Board" where
  "update_digits b [] = (Inr (), b)"
| "update_digits b (x # xs) =
     (case cell_at b (fst x) (snd x) of Inl e \<Rightarrow> (Inl e, b)
      | Inr c \<Rightarrow>
          (case py_get c 0 of Inl e \<Rightarrow> (Inl e, b)
           | Inr v \<Rightarrow>
               if v \<noteq> CHR ''*'' then
                 (case mines_touching b (neighbour_coords b (fst x) (snd x)) 0 of
                    Inl e \<Rightarrow> (Inl e, b)
                  | Inr n \<Rightarrow>
                      (case set_cell b (fst x) (snd x) (str_int n @ ''H'') of
                         Inl e \<Rightarrow> (Inl e, b)
                       | Inr b' \<Rightarrow> update_digits b' xs))
               else update_digits b xs))"

definition put_mines :: "Board \<Rightarrow> int \<Rightarrow> cell list \<Rightarrow> ((error + unit) \<times> Board) option" where
  "put_mines b mines draws =
     (if mines < 1 \<or> mines > rows b * columns b - 1 then Some (Inl ScatterException, b)
      else
        (case check_start b (all_cells b) of Inl e \<Rightarrow> Some (Inl e, b)
         | Inr _ \<Rightarrow>
             (case scatter b 0 mines draws of None \<Rightarrow> None
              | Some (Inl e, b') \<Rightarrow> Some (Inl e, b')
              | Some (Inr _, b') \<Rightarrow> Some (update_digits b' (all_cells b')))))"

section \<open>Game\<close>

text \<open>A \<open>Game\<close> holds one \<open>Board\<close> and nothing else, so its methods are functions of the
  board.\<close>

text \<open>The double loop of \<open>get_status\<close> with its two flags; finding an uncovered mine
  returns at once.\<close>

fun status_scan :: "Board \<Rightarrow> cell list \<Rightarrow> bool \<Rightarrow> bool \<Rightarrow> error + GameStatus" where
  "status_scan b [] containsUncoveredCell containsCoveredNonMineCell =
     Inr (if \<not> containsUncoveredCell then NotStarted
          else if \<not> containsCoveredNonMineCell then Win
          else InProgress)"
| "status_scan b (x # xs) containsUncoveredCell containsCoveredNonMineCell =
     (case get_value b (fst x) (snd x) of Inl e \<Rightarrow> Inl e
      | Inr v \<Rightarrow>
          (case is_hidden b (fst x) (snd x) of Inl e \<Rightarrow> Inl e
           | Inr h \<Rightarrow>
               (let hidden = (h = CHR ''H'') in
                if \<not> hidden \<and> v = CHR ''*'' then Inr Lose
                else status_scan b xs
                       (containsUncoveredCell \<or> \<not> hidden)
                       (containsCoveredNonMineCell \<or> (v \<noteq> CHR ''*'' \<and> hidden)))))"

definition get_status :: "Board \<Rightarrow> error + GameStatus" where
  "get_status b = status_scan b (all_cells b) False False"

text \<open>The loop of \<open>make_move\<close> over the ripple sequence; an exception stops it and keeps
  what was uncovered so far.\<close>

fun uncover_all :: "Board \<Rightarrow> cell list \<Rightarrow> (error + unit) \<times> Board" where
  "uncover_all b [] = (Inr (), b)"
| "uncover_all b (x # xs) =
     (case uncover b (fst x) (snd x) of
        (Inl e, b') \<Rightarrow> (Inl e, b')
      | (Inr _, b') \<Rightarrow> uncover_all b' xs)"

definition make_move :: "Board \<Rightarrow> int \<Rightarrow> int \<Rightarrow> (error + char) \<times> Board" where
  "make_move b row column =
     (case uncover b row column of
        (Inl e, b1) \<Rightarrow> (Inl e, b1)
      | (Inr _, b1) \<Rightarrow>
          (case get_value b1 row column of Inl e \<Rightarrow> (Inl e, b1)
           | Inr cell_value \<Rightarrow>
               if cell_value \<noteq> CHR ''0'' then (Inr cell_value, b1)
               else
                 (case ripple_sequence b1 row column of Inl e \<Rightarrow> (Inl e, b1)
                  | Inr ripple_seq \<Rightarrow>
                      (case uncover_all b1 ripple_seq of
                         (Inl e, b2) \<Rightarrow> (Inl e, b2)
                       | (Inr _, b2) \<Rightarrow> (Inr cell_value, b2)))))"

section \<open>Well-formed boards and plain cell access\<close>

text \<open>
  A board is well formed when its list of rows has \<open>rows\<close> entries, each row has
  \<open>columns\<close> entries and each cell is a string of two characters: what \<open>__init__\<close>
  builds and what \<open>put_mines\<close>, \<open>uncover\<close> and a successful \<open>load_board\<close> keep. On
  such a board no read raises \<open>IndexError\<close>, and the methods reduce to the plain
  functions below.
\<close>

definition wf_board :: "Board \<Rightarrow> bool" where
  "wf_board b =
     (int (length (board b)) = rows b \<and>
      (\<forall>r \<in> set (board b). int (length r) = columns b \<and> (\<forall>c \<in> set r. length c = 2)))"

definition cell_of :: "Board \<Rightarrow> cell \<Rightarrow> string" where
  "cell_of b x = board b ! nat (fst x) ! nat (snd x)"

definition cval :: "Board \<Rightarrow> cell \<Rightarrow> char" where
  "cval b x = cell_of b x ! 0"

definition is_mine :: "Board \<Rightarrow> cell \<Rightarrow> bool" where
  "is_mine b x = (cval b x = CHR ''*'')"

definition revealed :: "Board \<Rightarrow> cell \<Rightarrow> bool" where
  "revealed b x = (cell_of b x ! 1 \<noteq> CHR ''H'')"

definition put_cell :: "Board \<Rightarrow> cell \<Rightarrow> string \<Rightarrow> Board" where
  "put_cell b x v =
     b\<lparr>board := (board b)[nat (fst x) := (board b ! nat (fst x))[nat (snd x) := v]]\<rparr>"

definition reveal :: "Board \<Rightarrow> cell \<Rightarrow> Board" where
  "reveal b x = put_cell b x [cval b x, CHR ''S'']"

text \<open>The losing condition of \<open>get_status\<close>: some mine is uncovered.\<close>

definition mine_uncovered :: "Board \<Rightarrow> bool" where
  "mine_uncovered b = (\<exists>x \<in> grid_cells b. is_mine b x \<and> revealed b x)"

text \<open>The cells holding a mine, the start state that \<open>put_mines\<close> asks for, the
  eight-neighbourhood, and the number \<open>mines_touching\<close> computes for a cell.\<close>

definition mine_cells :: "Board \<Rightarrow> cell set" where
  "mine_cells b = {x \<in> grid_cells b. is_mine b x}"

definition start_state :: "Board \<Rightarrow> bool" where
  "start_state b = (\<forall>x \<in> grid_cells b. cval b x = CHR ''0'' \<and> \<not> revealed b x)"

definition adjacent :: "cell \<Rightarrow> cell \<Rightarrow> bool" where
  "adjacent x y = (x \<noteq> y \<and> \<bar>fst x - fst y\<bar> \<le> 1 \<and> \<bar>snd x - snd y\<bar> \<le> 1)"

definition mine_neighbours :: "Board \<Rightarrow> cell \<Rightarrow> cell set" where
  "mine_neighbours b x = {y \<in> grid_cells b. adjacent x y \<and> is_mine b y}"

definition mines_around :: "Board \<Rightarrow> cell \<Rightarrow> int" where
  "mines_around b x = int (length (filter (is_mine b) (neighbour_coords b (fst x) (snd x))))"

text \<open>A cell token that \<open>load_board\<close> accepts, and a board as \<open>__init__\<close>,
  \<open>put_mines\<close>, \<open>uncover\<close> and a successful \<open>load_board\<close> leave it: well formed,
  with at least one row and one column and accepted tokens only. \<open>row_text\<close> is what
  the inner loop of \<open>save_board\<close> appends for one row, \<open>row_line\<close> the line it
  becomes in the file, \<open>join_cells\<close> the same row with single spaces between the
  tokens only.\<close>

definition valid_cell :: "string \<Rightarrow> bool" where
  "valid_cell c = (length c = 2 \<and> c ! 0 \<in> set ''012345678*'' \<and> c ! 1 \<in> set ''HS'')"

definition valid_board :: "Board \<Rightarrow> bool" where
  "valid_board b =
     (wf_board b \<and> 1 \<le> rows b \<and> 1 \<le> columns b \<and>
      (\<forall>r \<in> set (board b). \<forall>c \<in> set r. valid_cell c))"

definition row_text :: "string list \<Rightarrow> string" where
  "row_text r = concat (map (\<lambda>c. c @ '' '') r)"

definition row_line :: "string list \<Rightarrow> string" where
  "row_line r = row_text r @ [CHR 0x0A]"

fun join_cells :: "string list \<Rightarrow> string" where
  "join_cells [] = []"
| "join_cells [c] = c"
| "join_cells (c # c' # cs) = c @ CHR '' '' # join_cells (c' # cs)"

section \<open>The cascade as the specification words it\<close>

text \<open>
  A second definition of the ripple sequence, written from the words of the
  specification and not from the code: a breadth-first traversal that keeps the set of
  cells already visited or queued; a dequeued cell is expanded only when its value is
  \<open>0\<close>; its neighbours are taken clockwise starting above, clipped to the grid; only
  hidden cells not yet seen are enqueued; the start cell is left out of the result, and
  the result is empty when the start cell is not \<open>0\<close>. It is compared with
  \<open>ripple_sequence\<close> below.
\<close>

definition clockwise :: "cell \<Rightarrow> cell list" where
  "clockwise x =
     (let r = fst x; c = snd x in
      [(r - 1, c), (r - 1, c + 1), (r, c + 1), (r + 1, c + 1),
       (r + 1, c), (r + 1, c - 1), (r, c - 1), (r - 1, c - 1)])"

definition in_bounds :: "Board \<Rightarrow> cell \<Rightarrow> bool" where
  "in_bounds b y = (0 \<le> fst y \<and> fst y < rows b \<and> 0 \<le> snd y \<and> snd y < columns b)"

definition fresh_neighbours :: "Board \<Rightarrow> cell set \<Rightarrow> cell \<Rightarrow> cell list" where
  "fresh_neighbours b seen x =
     filter (\<lambda>y. in_bounds b y \<and> \<not> revealed b y \<and> y \<notin> seen) (clockwise x)"

definition cascade_measure :: "Board \<times> cell set \<times> cell list \<Rightarrow> nat \<times> nat" where
  "cascade_measure = (\<lambda>(b, seen, q). (card (grid_cells b - seen), length q))"

lemma in_bounds_grid: "in_bounds b y \<longleftrightarrow> y \<in> grid_cells b"
  by (cases y) (simp add: in_bounds_def grid_cells_def)

lemma cascade_step_expand:
  "((b, seen \<union> set (fresh_neighbours b seen x), q @ fresh_neighbours b seen x), (b, seen, x # q))
     \<in> inv_image (less_than <*lex*> less_than) cascade_measure"
proof (cases "fresh_neighbours b seen x = []")
  case True
  then show ?thesis by (simp add: cascade_measure_def)
next
  case False
  then have "\<exists>y. y \<in> set (fresh_neighbours b seen x)"
    by (simp only: ex_in_conv set_empty not_False_eq_True)
  then obtain y where y: "y \<in> set (fresh_neighbours b seen x)" ..
  then have yg: "y \<in> grid_cells b" and yn: "y \<notin> seen"
    by (simp_all add: fresh_neighbours_def in_bounds_grid)
  have "grid_cells b - (seen \<union> set (fresh_neighbours b seen x)) \<subset> grid_cells b - seen"
    using y yg yn by blast
  then have "card (grid_cells b - (seen \<union> set (fresh_neighbours b seen x))) <
             card (grid_cells b - seen)"
    by (intro psubset_card_mono) (simp_all add: finite_grid_cells)
  then show ?thesis by (simp add: cascade_measure_def)
qed

function cascade_bfs :: "Board \<Rightarrow> cell set \<Rightarrow> cell list \<Rightarrow> cell list" where
  "cascade_bfs b seen [] = []"
| "cascade_bfs b seen (x # queue) =
     (if cval b x = CHR ''0''
      then x # cascade_bfs b (seen \<union> set (fresh_neighbours b seen x))
                   (queue @ fresh_neighbours b seen x)
      else x # cascade_bfs b seen queue)"
  by pat_completeness auto

termination
  apply (relation "inv_image (less_than <*lex*> less_than) cascade_measure")
    apply (intro wf_inv_image wf_lex_prod wf_less_than)
   apply (simp only: cascade_step_expand)
  apply (simp add: cascade_measure_def)
  done

definition ComputeCascade :: "Board \<Rightarrow> cell \<Rightarrow> cell list" where
  "ComputeCascade b start =
     (if cval b start \<noteq> CHR ''0'' then []
      else drop 1 (cascade_bfs b {start} [start]))"

section \<open>Basic facts\<close>

lemma in_grid_iff:
  "(i, j) \<in> grid_cells b \<longleftrightarrow> 0 \<le> i \<and> i < rows b \<and> 0 \<le> j \<and> j < columns b"
  by (auto simp: grid_cells_def)

lemma checkIndices_in: "(i, j) \<in> grid_cells b \<Longrightarrow> checkIndices b i j = Inr ()"
  by (auto simp: checkIndices_def in_grid_iff)

lemma checkIndices_out:
  "(i, j) \<notin> grid_cells b \<Longrightarrow> checkIndices b i j = Inl IllegalIndicesException"
  by (auto simp: checkIndices_def in_grid_iff)

lemma py_index_nonneg: "0 \<le> i \<Longrightarrow> i < int n \<Longrightarrow> py_index n i = Inr (nat i)"
  by (simp add: py_index_def)

lemma wf_row:
  assumes "wf_board b" "(i, j) \<in> grid_cells b"
  shows "nat i < length (board b)" "nat j < length (board b ! nat i)"
    "length (board b ! nat i ! nat j) = 2"
    "i < int (length (board b))" "j < int (length (board b ! nat i))"
proof -
  from assms show i: "nat i < length (board b)"
    by (auto simp: wf_board_def in_grid_iff)
  then have r: "board b ! nat i \<in> set (board b)" by simp
  with assms show j: "nat j < length (board b ! nat i)"
    by (auto simp: wf_board_def in_grid_iff)
  then have "board b ! nat i ! nat j \<in> set (board b ! nat i)" by simp
  with assms r show "length (board b ! nat i ! nat j) = 2"
    by (auto simp: wf_board_def)
  from assms show "i < int (length (board b))"
    by (auto simp: wf_board_def in_grid_iff)
  from assms r show "j < int (length (board b ! nat i))"
    by (auto simp: wf_board_def in_grid_iff)
qed

lemma cell_at_wf:
  assumes "wf_board b" "(i, j) \<in> grid_cells b"
  shows "cell_at b i j = Inr (cell_of b (i, j))"
  using wf_row [OF assms] assms(2)
  by (simp add: cell_at_def py_get_def py_index_def cell_of_def in_grid_iff)

lemma cell_of_length: "wf_board b \<Longrightarrow> (i, j) \<in> grid_cells b \<Longrightarrow> length (cell_of b (i, j)) = 2"
  using wf_row(3) by (simp add: cell_of_def)

lemma get_value_wf:
  assumes "wf_board b" "(i, j) \<in> grid_cells b"
  shows "get_value b i j = Inr (cval b (i, j))"
  using cell_of_length [OF assms]
  by (simp add: get_value_def checkIndices_in [OF assms(2)] cell_at_wf [OF assms]
      py_get_def py_index_def cval_def)

lemma is_hidden_wf:
  assumes "wf_board b" "(i, j) \<in> grid_cells b"
  shows "is_hidden b i j = Inr (if revealed b (i, j) then CHR ''S'' else CHR ''H'')"
  using cell_of_length [OF assms]
  by (simp add: is_hidden_def checkIndices_in [OF assms(2)] cell_at_wf [OF assms]
      py_get_def py_index_def revealed_def)

lemma set_cell_wf:
  assumes "wf_board b" "(i, j) \<in> grid_cells b"
  shows "set_cell b i j v = Inr (put_cell b (i, j) v)"
  using wf_row [OF assms] assms(2)
  by (simp add: set_cell_def py_index_def put_cell_def in_grid_iff)

lemma put_cell_dims [simp]:
  "rows (put_cell b x v) = rows b" "columns (put_cell b x v) = columns b"
  "grid_cells (put_cell b x v) = grid_cells b"
  by (simp_all add: put_cell_def grid_cells_def)

lemma wf_put_cell:
  assumes "wf_board b" "length v = 2"
  shows "wf_board (put_cell b x v)"
proof (cases "nat (fst x) < length (board b)")
  case False
  then have "(board b)[nat (fst x) := (board b ! nat (fst x))[nat (snd x) := v]] = board b"
    by (intro list_update_beyond) simp
  then show ?thesis using assms(1) by (simp add: wf_board_def put_cell_def)
next
  case True
  let ?old = "board b ! nat (fst x)"
  let ?new = "?old[nat (snd x) := v]"
  have o: "?old \<in> set (board b)" using True by simp
  have good_old: "int (length ?old) = columns b" "\<forall>c \<in> set ?old. length c = 2"
    using o assms(1) by (auto simp: wf_board_def)
  have "set ?new \<subseteq> insert v (set ?old)" by (rule set_update_subset_insert)
  then have good_new: "int (length ?new) = columns b \<and> (\<forall>c \<in> set ?new. length c = 2)"
    using good_old assms(2) by auto
  have sub: "set ((board b)[nat (fst x) := ?new]) \<subseteq> insert ?new (set (board b))"
    by (rule set_update_subset_insert)
  have "\<forall>r \<in> set ((board b)[nat (fst x) := ?new]).
          int (length r) = columns b \<and> (\<forall>c \<in> set r. length c = 2)"
  proof
    fix r assume "r \<in> set ((board b)[nat (fst x) := ?new])"
    then have "r = ?new \<or> r \<in> set (board b)" using sub by blast
    then show "int (length r) = columns b \<and> (\<forall>c \<in> set r. length c = 2)"
      using good_new assms(1) by (auto simp: wf_board_def)
  qed
  then show ?thesis using assms(1) by (simp add: wf_board_def put_cell_def)
qed

lemma cell_of_put_cell:
  assumes "wf_board b" "x \<in> grid_cells b" "y \<in> grid_cells b"
  shows "cell_of (put_cell b x v) y = (if y = x then v else cell_of b y)"
proof -
  obtain i j where x: "x = (i, j)" by (cases x)
  obtain k l where y: "y = (k, l)" by (cases y)
  note wx = wf_row [OF assms(1) assms(2)[unfolded x]]
  note wy = wf_row [OF assms(1) assms(3)[unfolded y]]
  have nn: "0 \<le> i" "0 \<le> j" "0 \<le> k" "0 \<le> l"
    using assms(2,3) by (auto simp: x y in_grid_iff)
  show ?thesis
  proof (cases "k = i")
    case True
    then show ?thesis using wx wy nn
      by (auto simp: cell_of_def put_cell_def x y nth_list_update)
  next
    case False
    then have "nat k \<noteq> nat i" using nn by simp
    then show ?thesis using wx wy False
      by (auto simp: cell_of_def put_cell_def x y nth_list_update)
  qed
qed

lemma uncover_wf:
  assumes "wf_board b" "(i, j) \<in> grid_cells b"
  shows "uncover b i j =
           (if revealed b (i, j) then (Inl IllegalMoveException, b) else (Inr (), reveal b (i, j)))"
  using cell_of_length [OF assms]
  by (simp add: uncover_def checkIndices_in [OF assms(2)] is_hidden_wf [OF assms]
      cell_at_wf [OF assms] set_cell_wf [OF assms] py_get_def py_index_def reveal_def cval_def)

lemma uncover_out:
  "(i, j) \<notin> grid_cells b \<Longrightarrow> uncover b i j = (Inl IllegalIndicesException, b)"
  by (simp add: uncover_def checkIndices_out)

lemma reveal_dims [simp]:
  "rows (reveal b x) = rows b" "columns (reveal b x) = columns b"
  "grid_cells (reveal b x) = grid_cells b"
  by (simp_all add: reveal_def)

lemma wf_reveal: "wf_board b \<Longrightarrow> wf_board (reveal b x)"
  by (simp add: reveal_def wf_put_cell)

lemma cval_reveal:
  assumes "wf_board b" "x \<in> grid_cells b" "y \<in> grid_cells b"
  shows "cval (reveal b x) y = cval b y"
  by (simp add: cval_def reveal_def cell_of_put_cell [OF assms])

lemma is_mine_reveal:
  "wf_board b \<Longrightarrow> x \<in> grid_cells b \<Longrightarrow> y \<in> grid_cells b \<Longrightarrow> is_mine (reveal b x) y = is_mine b y"
  by (simp add: is_mine_def cval_reveal)

lemma revealed_reveal:
  assumes "wf_board b" "x \<in> grid_cells b" "y \<in> grid_cells b"
  shows "revealed (reveal b x) y = (y = x \<or> revealed b y)"
  by (simp add: revealed_def reveal_def cell_of_put_cell [OF assms])

subsection \<open>Status, ripple and moves on a well-formed board\<close>

lemma set_all_cells: "set (all_cells b) = grid_cells b"
  by (auto simp: all_cells_def grid_cells_def)

lemma status_scan_wf:
  assumes "wf_board b" "set xs \<subseteq> grid_cells b"
  shows "status_scan b xs u c =
           Inr (if \<exists>x \<in> set xs. is_mine b x \<and> revealed b x then Lose
                else if \<not> (u \<or> (\<exists>x \<in> set xs. revealed b x)) then NotStarted
                else if \<not> (c \<or> (\<exists>x \<in> set xs. \<not> is_mine b x \<and> \<not> revealed b x)) then Win
                else InProgress)"
  using assms(2)
proof (induction xs arbitrary: u c)
  case Nil
  then show ?case by simp
next
  case (Cons x xs)
  obtain i j where x: "x = (i, j)" by (cases x)
  from Cons.prems have xg: "(i, j) \<in> grid_cells b" and sub: "set xs \<subseteq> grid_cells b"
    by (auto simp: x)
  note gv = get_value_wf [OF assms(1) xg] and ih = is_hidden_wf [OF assms(1) xg]
  show ?case
  proof (cases "revealed b (i, j)")
    case rv: True
    show ?thesis
    proof (cases "is_mine b (i, j)")
      case True
      with rv show ?thesis by (simp add: x gv ih is_mine_def)
    next
      case False
      with rv show ?thesis
        by (simp add: x gv ih Cons.IH [OF sub] is_mine_def)
    qed
  next
    case rv: False
    show ?thesis
    proof (cases "is_mine b (i, j)")
      case True
      with rv show ?thesis by (simp add: x gv ih Cons.IH [OF sub] is_mine_def)
    next
      case False
      with rv show ?thesis
        by (simp add: x gv ih Cons.IH [OF sub] is_mine_def)
    qed
  qed
qed

lemma get_status_wf:
  assumes "wf_board b"
  shows "get_status b =
           Inr (if \<exists>x \<in> grid_cells b. is_mine b x \<and> revealed b x then Lose
                else if \<not> (\<exists>x \<in> grid_cells b. revealed b x) then NotStarted
                else if \<forall>x \<in> grid_cells b. \<not> is_mine b x \<longrightarrow> revealed b x then Win
                else InProgress)"
proof -
  have sub: "set (all_cells b) \<subseteq> grid_cells b" by (simp add: set_all_cells)
  have eq: "(\<not> (\<exists>x \<in> grid_cells b. \<not> is_mine b x \<and> \<not> revealed b x)) =
            (\<forall>x \<in> grid_cells b. \<not> is_mine b x \<longrightarrow> revealed b x)"
    by blast
  show ?thesis
    unfolding get_status_def status_scan_wf [OF assms sub] set_all_cells
    by (simp only: eq simp_thms)
qed


lemma hidden_only_wf:
  assumes "wf_board b" "set xs \<subseteq> grid_cells b"
  shows "hidden_only b xs = Inr (filter (\<lambda>x. \<not> revealed b x) xs)"
  using assms(2)
proof (induction xs)
  case Nil
  then show ?case by simp
next
  case (Cons x xs)
  obtain i j where x: "x = (i, j)" by (cases x)
  from Cons.prems have xg: "(i, j) \<in> grid_cells b" and sub: "set xs \<subseteq> grid_cells b"
    by (auto simp: x)
  show ?case
    by (simp add: x is_hidden_wf [OF assms(1) xg] Cons.IH [OF sub])
qed

lemma distinct_get_neighbours: "distinct (get_neighbours b x)"
  by (simp add: get_neighbours_def Let_def)

lemma ripple_loop_wf:
  "wf_board b \<Longrightarrow> set s \<union> set q \<subseteq> grid_cells b \<Longrightarrow> distinct (s @ q) \<Longrightarrow>
         \<exists>r. ripple_loop b s q = Inr (s @ q @ r) \<and> distinct (s @ q @ r) \<and>
             set r \<subseteq> grid_cells b \<and> (\<forall>x \<in> set r. \<not> revealed b x)"
proof (induction b s q rule: ripple_loop.induct)
  case (1 b s)
  then show ?case by simp
next
  case (2 b s x q)
  obtain i j where x: "x = (i, j)" by (cases x)
  from "2.prems" have xg: "(i, j) \<in> grid_cells b" by (simp add: x)
  have wf: "wf_board b" using "2.prems" by simp
  note gv = get_value_wf [OF wf xg]
  show ?case
  proof (cases "cval b (i, j) = CHR ''0''")
    case False
    have "\<exists>r. ripple_loop b (s @ [x]) q = Inr ((s @ [x]) @ q @ r) \<and>
              distinct ((s @ [x]) @ q @ r) \<and> set r \<subseteq> grid_cells b \<and>
              (\<forall>x \<in> set r. \<not> revealed b x)"
      using "2.prems" False
      by (intro "2.IH"(1) [OF refl, of "cval b (i, j)"]) (auto simp: x gv)
    then show ?thesis using False by (simp add: x gv)
  next
    case True
    let ?hn = "filter (\<lambda>y. \<not> revealed b y) (get_neighbours b x)"
    let ?new = "filter (\<lambda>y. y \<notin> set (s @ [x]) \<and> y \<notin> set q) ?hn"
    have ho: "hidden_only b (get_neighbours b x) = Inr ?hn"
      by (rule hidden_only_wf [OF wf get_neighbours_in_grid])
    have newg: "set ?new \<subseteq> grid_cells b" using get_neighbours_in_grid [of b x] by auto
    have newd: "distinct ?new" by (simp add: distinct_get_neighbours)
    have newh: "\<forall>y \<in> set ?new. \<not> revealed b y" by simp
    have "\<exists>r. ripple_loop b (s @ [x]) (q @ ?new) = Inr ((s @ [x]) @ (q @ ?new) @ r) \<and>
              distinct ((s @ [x]) @ (q @ ?new) @ r) \<and> set r \<subseteq> grid_cells b \<and>
              (\<forall>x \<in> set r. \<not> revealed b x)"
    proof (rule "2.IH"(2) [OF refl _ _ ho])
      show "get_value b (fst x) (snd x) = Inr (cval b (i, j))" by (simp add: x gv)
      show "\<not> cval b (i, j) \<noteq> CHR ''0''" using True by simp
      show "wf_board b" by (rule wf)
      show "set (s @ [x]) \<union> set (q @ ?new) \<subseteq> grid_cells b"
        using "2.prems" newg by auto
      show "distinct ((s @ [x]) @ q @ ?new)"
        using "2.prems" newd by auto
    qed
    then obtain r where r: "ripple_loop b (s @ [x]) (q @ ?new) = Inr ((s @ [x]) @ (q @ ?new) @ r)"
      "distinct ((s @ [x]) @ (q @ ?new) @ r)" "set r \<subseteq> grid_cells b"
      "\<forall>x \<in> set r. \<not> revealed b x" by blast
    have "ripple_loop b s (x # q) = Inr (s @ (x # q) @ (?new @ r))"
      using True r(1) ho by (simp add: x gv)
    moreover have "distinct (s @ (x # q) @ (?new @ r))" using r(2) by simp
    moreover have "set (?new @ r) \<subseteq> grid_cells b" using newg r(3) by simp
    moreover have "\<forall>y \<in> set (?new @ r). \<not> revealed b y" using newh r(4) by auto
    ultimately show ?thesis by blast
  qed
qed

lemma ripple_sequence_wf:
  assumes "wf_board b" "(i, j) \<in> grid_cells b"
  shows "\<exists>r. ripple_sequence b i j = Inr r \<and> distinct ((i, j) # r) \<and>
             set r \<subseteq> grid_cells b \<and> (\<forall>x \<in> set r. \<not> revealed b x)"
proof -
  have "\<exists>r. ripple_loop b [] [(i, j)] = Inr ([] @ [(i, j)] @ r) \<and>
            distinct ([] @ [(i, j)] @ r) \<and> set r \<subseteq> grid_cells b \<and>
            (\<forall>x \<in> set r. \<not> revealed b x)"
    using assms by (intro ripple_loop_wf) simp_all
  then obtain r where "ripple_loop b [] [(i, j)] = Inr ((i, j) # r)" "distinct ((i, j) # r)"
    "set r \<subseteq> grid_cells b" "\<forall>x \<in> set r. \<not> revealed b x" by auto
  then show ?thesis
    by (simp add: ripple_sequence_def checkIndices_in [OF assms(2)])
qed


lemma foldl_reveal_dims [simp]:
  "grid_cells (foldl reveal b xs) = grid_cells b"
  by (induction xs arbitrary: b) simp_all

lemma wf_foldl_reveal: "wf_board b \<Longrightarrow> wf_board (foldl reveal b xs)"
  by (induction xs arbitrary: b) (simp_all add: wf_reveal)

lemma uncover_all_wf:
  "wf_board b \<Longrightarrow> set xs \<subseteq> grid_cells b \<Longrightarrow> distinct xs \<Longrightarrow>
   \<forall>x \<in> set xs. \<not> revealed b x \<Longrightarrow> uncover_all b xs = (Inr (), foldl reveal b xs)"
proof (induction xs arbitrary: b)
  case Nil
  then show ?case by simp
next
  case (Cons x xs)
  obtain i j where x: "x = (i, j)" by (cases x)
  from Cons.prems have xg: "(i, j) \<in> grid_cells b" and hid: "\<not> revealed b (i, j)"
    by (auto simp: x)
  have un: "uncover b i j = (Inr (), reveal b x)"
    using hid by (simp add: uncover_wf [OF Cons.prems(1) xg] x)
  have hid': "\<forall>y \<in> set xs. \<not> revealed (reveal b x) y"
  proof
    fix y assume y: "y \<in> set xs"
    then have "y \<in> grid_cells b" "y \<noteq> x" "\<not> revealed b y" using Cons.prems by auto
    then show "\<not> revealed (reveal b x) y"
      using revealed_reveal [OF Cons.prems(1), of x y] xg by (simp add: x)
  qed
  have "uncover_all (reveal b x) xs = (Inr (), foldl reveal (reveal b x) xs)"
    using Cons.prems hid' by (intro Cons.IH) (simp_all add: wf_reveal)
  then show ?case by (simp add: x un [unfolded x])
qed

lemma mine_uncovered_reveal:
  assumes "wf_board b" "x \<in> grid_cells b" "mine_uncovered b"
  shows "mine_uncovered (reveal b x)"
proof -
  from assms(3) obtain y where y: "y \<in> grid_cells b" "is_mine b y" "revealed b y"
    by (auto simp: mine_uncovered_def)
  then have "is_mine (reveal b x) y \<and> revealed (reveal b x) y"
    by (simp add: is_mine_reveal [OF assms(1,2)] revealed_reveal [OF assms(1,2)])
  then show ?thesis using y(1) by (auto simp: mine_uncovered_def)
qed

lemma uncover_result:
  assumes "wf_board b"
  shows "uncover b i j = (Inl IllegalIndicesException, b) \<and> (i, j) \<notin> grid_cells b \<or>
         uncover b i j = (Inl IllegalMoveException, b) \<and> (i, j) \<in> grid_cells b \<and> revealed b (i, j) \<or>
         uncover b i j = (Inr (), reveal b (i, j)) \<and> (i, j) \<in> grid_cells b \<and> \<not> revealed b (i, j)"
proof (cases "(i, j) \<in> grid_cells b")
  case True
  then show ?thesis by (simp add: uncover_wf [OF assms True])
next
  case False
  then show ?thesis by (simp add: uncover_out)
qed

lemma uncover_keeps:
  assumes "wf_board b"
  shows "wf_board (snd (uncover b i j)) \<and> grid_cells (snd (uncover b i j)) = grid_cells b \<and>
         (mine_uncovered b \<longrightarrow> mine_uncovered (snd (uncover b i j)))"
  using uncover_result [OF assms, of i j] assms
  by (auto simp: wf_reveal mine_uncovered_reveal)

lemma uncover_all_keeps:
  "wf_board b \<Longrightarrow>
     wf_board (snd (uncover_all b xs)) \<and> grid_cells (snd (uncover_all b xs)) = grid_cells b \<and>
     (mine_uncovered b \<longrightarrow> mine_uncovered (snd (uncover_all b xs)))"
proof (induction xs arbitrary: b)
  case Nil
  then show ?case by simp
next
  case (Cons x xs)
  obtain r b' where u: "uncover b (fst x) (snd x) = (r, b')" by (cases "uncover b (fst x) (snd x)")
  have k: "wf_board b'" "grid_cells b' = grid_cells b" "mine_uncovered b \<longrightarrow> mine_uncovered b'"
    using uncover_keeps [OF Cons.prems, of "fst x" "snd x"] by (simp_all add: u)
  show ?case
  proof (cases r)
    case (Inl e)
    then show ?thesis using k by (simp add: u)
  next
    case (Inr a)
    then show ?thesis using Cons.IH [OF k(1)] k by (simp add: u)
  qed
qed

lemma make_move_keeps:
  assumes "wf_board b"
  shows "wf_board (snd (make_move b i j)) \<and>
         (mine_uncovered b \<longrightarrow> mine_uncovered (snd (make_move b i j)))"
proof -
  obtain r b1 where u: "uncover b i j = (r, b1)" by (cases "uncover b i j")
  have k: "wf_board b1" "mine_uncovered b \<longrightarrow> mine_uncovered b1"
    using uncover_keeps [OF assms, of i j] by (simp_all add: u)
  have ka: "wf_board (snd (uncover_all b1 xs)) \<and>
            (mine_uncovered b \<longrightarrow> mine_uncovered (snd (uncover_all b1 xs)))" for xs
    using uncover_all_keeps [OF k(1), of xs] k(2) by simp
  have "snd (make_move b i j) = b1 \<or> (\<exists>xs. snd (make_move b i j) = snd (uncover_all b1 xs))"
    by (auto simp: make_move_def u split: sum.splits prod.splits) (metis snd_conv)+
  then show ?thesis using k ka by auto
qed

lemma get_status_Lose_iff:
  "wf_board b \<Longrightarrow> get_status b = Inr Lose \<longleftrightarrow> mine_uncovered b"
  by (simp add: get_status_wf mine_uncovered_def)

lemma make_move_hidden:
  assumes "wf_board b" "(i, j) \<in> grid_cells b" "\<not> revealed b (i, j)"
  shows "if cval b (i, j) \<noteq> CHR ''0''
         then make_move b i j = (Inr (cval b (i, j)), reveal b (i, j))
         else \<exists>rs. ripple_sequence (reveal b (i, j)) i j = Inr rs \<and>
                make_move b i j = (Inr (cval b (i, j)), foldl reveal (reveal b (i, j)) rs)"
proof -
  let ?b1 = "reveal b (i, j)"
  have wf1: "wf_board ?b1" by (rule wf_reveal [OF assms(1)])
  have g1: "(i, j) \<in> grid_cells ?b1" using assms(2) by simp
  have un: "uncover b i j = (Inr (), ?b1)" using assms(3) by (simp add: uncover_wf [OF assms(1,2)])
  have gv: "get_value ?b1 i j = Inr (cval b (i, j))"
    by (simp add: get_value_wf [OF wf1 g1] cval_reveal [OF assms(1,2,2)])
  show ?thesis
  proof (cases "cval b (i, j) = CHR ''0''")
    case False
    then show ?thesis by (simp add: make_move_def un gv)
  next
    case True
    from ripple_sequence_wf [OF wf1 g1] obtain rs where
      rs: "ripple_sequence ?b1 i j = Inr rs" "distinct ((i, j) # rs)"
        "set rs \<subseteq> grid_cells ?b1" "\<forall>x \<in> set rs. \<not> revealed ?b1 x" by blast
    have "uncover_all ?b1 rs = (Inr (), foldl reveal ?b1 rs)"
      using rs by (intro uncover_all_wf [OF wf1]) simp_all
    then show ?thesis using True rs(1) by (simp add: make_move_def un gv)
  qed
qed

lemma make_move_revealed:
  "wf_board b \<Longrightarrow> (i, j) \<in> grid_cells b \<Longrightarrow> revealed b (i, j) \<Longrightarrow>
   make_move b i j = (Inl IllegalMoveException, b)"
  by (simp add: make_move_def uncover_wf)

lemma make_move_out:
  "(i, j) \<notin> grid_cells b \<Longrightarrow> make_move b i j = (Inl IllegalIndicesException, b)"
  by (simp add: make_move_def uncover_out)

lemma get_status_Win_D:
  assumes "wf_board b" "get_status b = Inr Win"
  shows "\<not> mine_uncovered b" "\<forall>x \<in> grid_cells b. \<not> is_mine b x \<longrightarrow> revealed b x"
  using assms(2) unfolding get_status_wf [OF assms(1)] mine_uncovered_def
  by (simp_all split: if_splits)

subsection \<open>Scattering mines on a well-formed board\<close>

lemma finite_mine_cells: "finite (mine_cells b)"
  by (simp add: mine_cells_def finite_grid_cells)

lemma check_start_wf:
  assumes "wf_board b" "set xs \<subseteq> grid_cells b"
  shows "check_start b xs =
           (if \<forall>x \<in> set xs. cval b x = CHR ''0'' \<and> \<not> revealed b x then Inr ()
            else Inl ScatterException)"
  using assms(2)
proof (induction xs)
  case Nil
  then show ?case by simp
next
  case (Cons x xs)
  obtain i j where x: "x = (i, j)" by (cases x)
  from Cons.prems have xg: "(i, j) \<in> grid_cells b" and sub: "set xs \<subseteq> grid_cells b"
    by (auto simp: x)
  show ?case
    by (simp add: x get_value_wf [OF assms(1) xg] is_hidden_wf [OF assms(1) xg] Cons.IH [OF sub])
qed

lemma check_start_all:
  "wf_board b \<Longrightarrow>
   check_start b (all_cells b) = (if start_state b then Inr () else Inl ScatterException)"
  by (simp add: check_start_wf set_all_cells start_state_def)

lemma is_mine_put_cell:
  assumes "wf_board b" "x \<in> grid_cells b" "y \<in> grid_cells b"
  shows "is_mine (put_cell b x v) y = (if y = x then v ! 0 = CHR ''*'' else is_mine b y)"
  by (simp add: is_mine_def cval_def cell_of_put_cell [OF assms])

lemma mine_cells_put_mine:
  assumes "wf_board b" "x \<in> grid_cells b"
  shows "mine_cells (put_cell b x ''*H'') = insert x (mine_cells b)"
proof -
  have "y \<in> grid_cells b \<Longrightarrow> is_mine (put_cell b x ''*H'') y = (y = x \<or> is_mine b y)" for y
    using is_mine_put_cell [OF assms, of y "''*H''"] by simp
  then show ?thesis using assms(2) by (auto simp: mine_cells_def)
qed

lemma mine_cells_put_other:
  assumes "wf_board b" "x \<in> grid_cells b" "\<not> is_mine b x" "v ! 0 \<noteq> CHR ''*''"
  shows "mine_cells (put_cell b x v) = mine_cells b"
proof -
  have "y \<in> grid_cells b \<Longrightarrow> is_mine (put_cell b x v) y = is_mine b y" for y
    using is_mine_put_cell [OF assms(1,2), of y v] assms(3,4) by simp
  then show ?thesis by (auto simp: mine_cells_def)
qed

lemma scatter_ok:
  "wf_board b \<Longrightarrow> placed \<le> mines \<Longrightarrow> scatter b placed mines draws = Some (Inr u, b1) \<Longrightarrow>
   wf_board b1 \<and> rows b1 = rows b \<and> columns b1 = columns b \<and> mine_cells b \<subseteq> mine_cells b1 \<and>
   int (card (mine_cells b1)) = int (card (mine_cells b)) + (mines - placed)"
proof (induction draws arbitrary: b placed)
  case Nil
  then show ?case by (simp split: if_splits)
next
  case (Cons x draws)
  obtain i j where x: "x = (i, j)" by (cases x)
  show ?case
  proof (cases "placed < mines")
    case False
    with Cons.prems show ?thesis by simp
  next
    case less: True
    show ?thesis
    proof (cases "(i, j) \<in> grid_cells b")
      case False
      then have "get_value b i j = Inl IllegalIndicesException"
        by (simp add: get_value_def checkIndices_out)
      with Cons.prems less show ?thesis by (simp add: x)
    next
      case xg: True
      note gv = get_value_wf [OF Cons.prems(1) xg]
      show ?thesis
      proof (cases "is_mine b (i, j)")
        case True
        then have "scatter b placed mines draws = Some (Inr u, b1)"
          using Cons.prems(3) less by (simp add: x gv is_mine_def)
        from Cons.IH [OF Cons.prems(1,2) this] show ?thesis .
      next
        case False
        let ?b' = "put_cell b (i, j) ''*H''"
        have wf': "wf_board ?b'" by (simp add: wf_put_cell Cons.prems(1))
        have sc: "scatter ?b' (placed + 1) mines draws = Some (Inr u, b1)"
          using Cons.prems(3) less False
          by (simp add: x gv is_mine_def set_cell_wf [OF Cons.prems(1) xg])
        have le: "placed + 1 \<le> mines" using less by simp
        note ih = Cons.IH [OF wf' le sc]
        have mc: "mine_cells ?b' = insert (i, j) (mine_cells b)"
          by (rule mine_cells_put_mine [OF Cons.prems(1) xg])
        have "(i, j) \<notin> mine_cells b" using False by (simp add: mine_cells_def)
        then have "card (mine_cells ?b') = Suc (card (mine_cells b))"
          by (simp add: mc finite_mine_cells)
        then show ?thesis using ih mc by auto
      qed
    qed
  qed
qed

lemma scatter_no_error:
  "wf_board b \<Longrightarrow> set draws \<subseteq> grid_cells b \<Longrightarrow>
   scatter b placed mines draws = Some (r, b1) \<Longrightarrow> r = Inr ()"
proof (induction draws arbitrary: b placed)
  case Nil
  then show ?case by (simp split: if_splits)
next
  case (Cons x draws)
  obtain i j where x: "x = (i, j)" by (cases x)
  from Cons.prems have xg: "(i, j) \<in> grid_cells b" and sub: "set draws \<subseteq> grid_cells b"
    by (auto simp: x)
  note gv = get_value_wf [OF Cons.prems(1) xg]
  show ?case
  proof (cases "placed < mines")
    case False
    with Cons.prems show ?thesis by simp
  next
    case less: True
    show ?thesis
    proof (cases "is_mine b (i, j)")
      case True
      then have "scatter b placed mines draws = Some (r, b1)"
        using Cons.prems(3) less by (simp add: x gv is_mine_def)
      from Cons.IH [OF Cons.prems(1) sub this] show ?thesis .
    next
      case False
      let ?b' = "put_cell b (i, j) ''*H''"
      have wf': "wf_board ?b'" by (simp add: wf_put_cell Cons.prems(1))
      have sc: "scatter ?b' (placed + 1) mines draws = Some (r, b1)"
        using Cons.prems(3) less False
        by (simp add: x gv is_mine_def set_cell_wf [OF Cons.prems(1) xg])
      have "set draws \<subseteq> grid_cells ?b'" using sub by simp
      from Cons.IH [OF wf' this sc] show ?thesis .
    qed
  qed
qed


lemma mines_touching_wf:
  assumes "wf_board b" "set xs \<subseteq> grid_cells b"
  shows "mines_touching b xs n = Inr (n + int (length (filter (is_mine b) xs)))"
  using assms(2)
proof (induction xs arbitrary: n)
  case Nil
  then show ?case by simp
next
  case (Cons x xs)
  obtain i j where x: "x = (i, j)" by (cases x)
  from Cons.prems have xg: "(i, j) \<in> grid_cells b" and sub: "set xs \<subseteq> grid_cells b"
    by (auto simp: x)
  have c0: "py_get (cell_of b (i, j)) 0 = Inr (cval b (i, j))"
    using cell_of_length [OF assms(1) xg] by (simp add: py_get_def py_index_def cval_def)
  show ?case
    by (simp add: x cell_at_wf [OF assms(1) xg] c0 Cons.IH [OF sub] is_mine_def)
qed

lemma neighbour_coords_in_grid: "set (neighbour_coords b i j) \<subseteq> grid_cells b"
  unfolding neighbour_coords_def grid_cells_def set_filter by auto

lemma distinct_neighbour_coords: "distinct (neighbour_coords b i j)"
  by (simp add: neighbour_coords_def)

lemma length_neighbour_coords: "length (neighbour_coords b i j) \<le> 8"
proof -
  have "length (neighbour_coords b i j) \<le> length [(i + 1, j + 1), (i - 1, j - 1), (i + 1, j - 1),
          (i - 1, j + 1), (i + 1, j), (i - 1, j), (i, j - 1), (i, j + 1)]"
    unfolding neighbour_coords_def by (rule length_filter_le)
  then show ?thesis by simp
qed

lemma neighbour_coords_iff:
  "y \<in> set (neighbour_coords b i j) \<longleftrightarrow>
     y \<in> grid_cells b \<and>
     y \<in> {(i + 1, j + 1), (i - 1, j - 1), (i + 1, j - 1), (i - 1, j + 1),
          (i + 1, j), (i - 1, j), (i, j - 1), (i, j + 1)}"
proof -
  obtain a c where ac: "y = (a, c)" by (cases y)
  have "set (neighbour_coords b i j) =
          {z \<in> set [(i + 1, j + 1), (i - 1, j - 1), (i + 1, j - 1), (i - 1, j + 1),
                    (i + 1, j), (i - 1, j), (i, j - 1), (i, j + 1)].
             case z of (x, y) \<Rightarrow> x \<ge> 0 \<and> y \<ge> 0 \<and> x < rows b \<and> y < columns b}"
    unfolding neighbour_coords_def by (rule set_filter)
  then show ?thesis unfolding ac grid_cells_def by auto
qed

lemma set_neighbour_coords:
  "set (neighbour_coords b i j) = {y \<in> grid_cells b. adjacent (i, j) y}"
proof (intro equalityI subsetI)
  fix y assume "y \<in> set (neighbour_coords b i j)"
  then show "y \<in> {y \<in> grid_cells b. adjacent (i, j) y}"
    unfolding neighbour_coords_iff by (auto simp: adjacent_def)
next
  fix y assume y: "y \<in> {y \<in> grid_cells b. adjacent (i, j) y}"
  obtain a c where ac: "y = (a, c)" by (cases y)
  from y have g: "y \<in> grid_cells b" by simp
  from y have "(a, c) \<noteq> (i, j)" "\<bar>i - a\<bar> \<le> 1" "\<bar>j - c\<bar> \<le> 1"
    by (auto simp: ac adjacent_def)
  then have "(a = i - 1 \<or> a = i \<or> a = i + 1) \<and> (c = j - 1 \<or> c = j \<or> c = j + 1) \<and>
             \<not> (a = i \<and> c = j)" by auto
  then show "y \<in> set (neighbour_coords b i j)"
    unfolding neighbour_coords_iff using g by (auto simp: ac)
qed

lemma mines_around_card:
  "mines_around b x = int (card (mine_neighbours b x))"
proof -
  obtain i j where x: "x = (i, j)" by (cases x)
  have "distinct (filter (is_mine b) (neighbour_coords b i j))"
    by (simp add: distinct_neighbour_coords)
  then have "length (filter (is_mine b) (neighbour_coords b i j)) =
             card (set (filter (is_mine b) (neighbour_coords b i j)))"
    by (rule distinct_card [symmetric])
  moreover have "set (filter (is_mine b) (neighbour_coords b i j)) = mine_neighbours b (i, j)"
    by (auto simp: set_neighbour_coords mine_neighbours_def)
  ultimately show ?thesis by (simp add: mines_around_def x)
qed

lemma mines_around_bounds: "0 \<le> mines_around b x" "mines_around b x \<le> 8"
proof -
  show "0 \<le> mines_around b x" by (simp add: mines_around_def)
  have "length (filter (is_mine b) (neighbour_coords b (fst x) (snd x))) \<le>
        length (neighbour_coords b (fst x) (snd x))" by (rule length_filter_le)
  also have "\<dots> \<le> 8" by (rule length_neighbour_coords)
  finally show "mines_around b x \<le> 8" by (simp add: mines_around_def)
qed

lemma mines_around_cong:
  assumes "rows b' = rows b" "columns b' = columns b"
    "\<forall>y \<in> grid_cells b. is_mine b' y = is_mine b y"
  shows "mines_around b' x = mines_around b x"
proof -
  have nc: "neighbour_coords b' (fst x) (snd x) = neighbour_coords b (fst x) (snd x)"
    using assms(1,2) by (simp add: neighbour_coords_def)
  have "filter (is_mine b') (neighbour_coords b (fst x) (snd x)) =
        filter (is_mine b) (neighbour_coords b (fst x) (snd x))"
    using assms(3) neighbour_coords_in_grid [of b "fst x" "snd x"]
    by (intro filter_cong) auto
  then show ?thesis by (simp add: mines_around_def nc)
qed

lemma digit_not_star: "k < 10 \<Longrightarrow> ''0123456789'' ! k \<noteq> CHR ''*''"
proof -
  assume "k < 10"
  then have "''0123456789'' ! k \<in> set ''0123456789''" by (intro nth_mem) simp
  then show ?thesis by auto
qed

lemma str_int_digit:
  assumes "0 \<le> n" "n \<le> 8"
  shows "str_int n = [''0123456789'' ! nat n]" "length (str_int n @ ''H'') = 2"
    "(str_int n @ ''H'') ! 0 \<noteq> CHR ''*''"
proof -
  have lt: "nat n < 10" using assms by simp
  have "digits (nat n) = [''0123456789'' ! nat n]" using lt by (subst digits.simps) simp
  then show s: "str_int n = [''0123456789'' ! nat n]" using assms by (simp add: str_int_def)
  show "length (str_int n @ ''H'') = 2" by (simp add: s)
  show "(str_int n @ ''H'') ! 0 \<noteq> CHR ''*''" using digit_not_star [OF lt] by (simp add: s)
qed


lemma update_digits_wf:
  "wf_board b \<Longrightarrow> set xs \<subseteq> grid_cells b \<Longrightarrow>
   \<exists>b'. update_digits b xs = (Inr (), b') \<and> wf_board b' \<and>
        rows b' = rows b \<and> columns b' = columns b \<and>
        (\<forall>y \<in> grid_cells b. is_mine b' y = is_mine b y) \<and>
        (\<forall>y \<in> grid_cells b.
           cell_of b' y =
             (if y \<in> set xs \<and> \<not> is_mine b y then str_int (mines_around b y) @ ''H''
              else cell_of b y))"
proof (induction xs arbitrary: b)
  case Nil
  then show ?case by simp
next
  case (Cons x xs)
  obtain i j where x: "x = (i, j)" by (cases x)
  have wf: "wf_board b" by fact
  from Cons.prems have xg: "(i, j) \<in> grid_cells b" and sub: "set xs \<subseteq> grid_cells b"
    by (auto simp: x)
  have c0: "py_get (cell_of b (i, j)) 0 = Inr (cval b (i, j))"
    using cell_of_length [OF wf xg] by (simp add: py_get_def py_index_def cval_def)
  show ?case
  proof (cases "is_mine b (i, j)")
    case True
    have step: "update_digits b (x # xs) = update_digits b xs"
      using True by (simp add: x cell_at_wf [OF wf xg] c0 is_mine_def)
    from Cons.IH [OF wf sub] obtain b' where b':
      "update_digits b xs = (Inr (), b')" "wf_board b'" "rows b' = rows b"
      "columns b' = columns b" "\<forall>y \<in> grid_cells b. is_mine b' y = is_mine b y"
      "\<forall>y \<in> grid_cells b. cell_of b' y =
             (if y \<in> set xs \<and> \<not> is_mine b y then str_int (mines_around b y) @ ''H''
              else cell_of b y)" by blast
    have "\<forall>y \<in> grid_cells b. cell_of b' y =
             (if y \<in> set (x # xs) \<and> \<not> is_mine b y then str_int (mines_around b y) @ ''H''
              else cell_of b y)"
      using b'(6) True by (auto simp: x)
    then show ?thesis using step b'(1-5) by simp
  next
    case False
    let ?n = "mines_around b (i, j)"
    let ?v = "str_int ?n @ ''H''"
    let ?b1 = "put_cell b (i, j) ?v"
    note sd = str_int_digit [OF mines_around_bounds, of b "(i, j)"]
    have mt: "mines_touching b (neighbour_coords b i j) 0 = Inr ?n"
      by (simp add: mines_touching_wf [OF wf neighbour_coords_in_grid] mines_around_def)
    have step: "update_digits b (x # xs) = update_digits ?b1 xs"
      using False by (simp add: x cell_at_wf [OF wf xg] c0 is_mine_def mt set_cell_wf [OF wf xg])
    have wf1: "wf_board ?b1" by (rule wf_put_cell [OF wf sd(2)])
    have sub1: "set xs \<subseteq> grid_cells ?b1" using sub by simp
    have m1: "\<forall>y \<in> grid_cells b. is_mine ?b1 y = is_mine b y"
      using is_mine_put_cell [OF wf xg] sd(3) False by auto
    have ma1: "mines_around ?b1 y = mines_around b y" for y
      by (rule mines_around_cong) (simp_all add: m1)
    from Cons.IH [OF wf1 sub1] obtain b' where b':
      "update_digits ?b1 xs = (Inr (), b')" "wf_board b'" "rows b' = rows ?b1"
      "columns b' = columns ?b1" "\<forall>y \<in> grid_cells ?b1. is_mine b' y = is_mine ?b1 y"
      "\<forall>y \<in> grid_cells ?b1. cell_of b' y =
             (if y \<in> set xs \<and> \<not> is_mine ?b1 y then str_int (mines_around ?b1 y) @ ''H''
              else cell_of ?b1 y)" by blast
    have mines: "\<forall>y \<in> grid_cells b. is_mine b' y = is_mine b y"
      using b'(5) m1 by simp
    have cells: "\<forall>y \<in> grid_cells b. cell_of b' y =
             (if y \<in> set (x # xs) \<and> \<not> is_mine b y then str_int (mines_around b y) @ ''H''
              else cell_of b y)"
    proof
      fix y assume yg: "y \<in> grid_cells b"
      have c1: "cell_of ?b1 y = (if y = (i, j) then ?v else cell_of b y)"
        by (rule cell_of_put_cell [OF wf xg yg])
      have "cell_of b' y =
             (if y \<in> set xs \<and> \<not> is_mine b y then str_int (mines_around b y) @ ''H''
              else cell_of ?b1 y)"
        using b'(6) yg m1 by (simp add: ma1)
      then show "cell_of b' y =
             (if y \<in> set (x # xs) \<and> \<not> is_mine b y then str_int (mines_around b y) @ ''H''
              else cell_of b y)"
        using c1 False by (auto simp: x)
    qed
    show ?thesis using step b'(1-4) mines cells by simp
  qed
qed

lemma put_mines_invalid_count:
  "mines < 1 \<or> mines > rows b * columns b - 1 \<Longrightarrow>
   put_mines b mines draws = Some (Inl ScatterException, b)"
  by (auto simp: put_mines_def)

lemma put_mines_not_start:
  "wf_board b \<Longrightarrow> \<not> start_state b \<Longrightarrow> put_mines b mines draws = Some (Inl ScatterException, b)"
  by (simp add: put_mines_def check_start_all)

lemma put_mines_success:
  assumes wf: "wf_board b" and pm: "put_mines b mines draws = Some (Inr u, b')"
  shows "1 \<le> mines" "mines \<le> rows b * columns b - 1" "start_state b" "wf_board b'"
    "rows b' = rows b" "columns b' = columns b"
    "int (card (mine_cells b')) = int (card (mine_cells b)) + mines"
    "\<forall>y \<in> grid_cells b'. \<not> is_mine b' y \<longrightarrow>
        cell_of b' y = str_int (mines_around b' y) @ ''H''"
proof -
  from pm show k: "1 \<le> mines" "mines \<le> rows b * columns b - 1"
    by (auto simp: put_mines_def split: if_splits)
  from pm k show st: "start_state b"
    by (auto simp: put_mines_def check_start_all [OF wf] split: if_splits)
  from pm k st obtain r b1 where sc: "scatter b 0 mines draws = Some (r, b1)"
    by (auto simp: put_mines_def check_start_all [OF wf] split: option.splits)
  have r: "r = Inr ()"
    using pm k st sc by (cases r) (auto simp: put_mines_def check_start_all [OF wf])
  have ud: "update_digits b1 (all_cells b1) = (Inr u, b')"
    using pm k st sc r by (simp add: put_mines_def check_start_all [OF wf])
  have "0 \<le> mines" using k by simp
  from scatter_ok [OF wf this sc [unfolded r]]
  have b1: "wf_board b1" "rows b1 = rows b" "columns b1 = columns b"
    "int (card (mine_cells b1)) = int (card (mine_cells b)) + mines" by simp_all
  have g1: "grid_cells b1 = grid_cells b" using b1(2,3) by (simp add: grid_cells_def)
  from update_digits_wf [OF b1(1), of "all_cells b1"] ud
  have b': "wf_board b'" "rows b' = rows b1" "columns b' = columns b1"
    "\<forall>y \<in> grid_cells b1. is_mine b' y = is_mine b1 y"
    "\<forall>y \<in> grid_cells b1. cell_of b' y =
        (if \<not> is_mine b1 y then str_int (mines_around b1 y) @ ''H'' else cell_of b1 y)"
    by (auto simp: set_all_cells)
  have g': "grid_cells b' = grid_cells b1" using b'(2,3) by (simp add: grid_cells_def)
  show "wf_board b'" by fact
  show "rows b' = rows b" "columns b' = columns b" using b'(2,3) b1(2,3) by simp_all
  have "mine_cells b' = mine_cells b1" using b'(4) by (auto simp: mine_cells_def g')
  then show "int (card (mine_cells b')) = int (card (mine_cells b)) + mines" using b1(4) by simp
  have ma: "mines_around b' y = mines_around b1 y" for y
    by (rule mines_around_cong) (simp_all add: b'(2,3,4))
  show "\<forall>y \<in> grid_cells b'. \<not> is_mine b' y \<longrightarrow>
        cell_of b' y = str_int (mines_around b' y) @ ''H''"
    using b'(4,5) by (simp add: g' ma)
qed

lemma put_mines_no_error:
  assumes wf: "wf_board b" and st: "start_state b"
    and k: "1 \<le> mines" "mines \<le> rows b * columns b - 1"
    and dr: "set draws \<subseteq> grid_cells b"
    and pm: "put_mines b mines draws = Some (r, b')"
  shows "r = Inr ()"
proof -
  from pm k st obtain r1 b1 where sc: "scatter b 0 mines draws = Some (r1, b1)"
    by (auto simp: put_mines_def check_start_all [OF wf] split: option.splits)
  have r1: "r1 = Inr ()" by (rule scatter_no_error [OF wf dr sc])
  have "0 \<le> mines" using k by simp
  from scatter_ok [OF wf this sc [unfolded r1]] have wf1: "wf_board b1" by simp
  have ud: "update_digits b1 (all_cells b1) = (r, b')"
    using pm k st sc r1 by (simp add: put_mines_def check_start_all [OF wf])
  from update_digits_wf [OF wf1, of "all_cells b1"] ud show ?thesis
    by (auto simp: set_all_cells)
qed


lemma start_state_no_mines: "start_state b \<Longrightarrow> mine_cells b = {}"
  by (auto simp: start_state_def mine_cells_def is_mine_def)

lemma scatter_terminates:
  "wf_board b \<Longrightarrow> set draws \<subseteq> grid_cells b \<Longrightarrow>
   mines - placed \<le> int (card (set draws - mine_cells b)) \<Longrightarrow>
   scatter b placed mines draws \<noteq> None"
proof (induction draws arbitrary: b placed)
  case Nil
  then show ?case by simp
next
  case (Cons x draws)
  obtain i j where x: "x = (i, j)" by (cases x)
  from Cons.prems have xg: "(i, j) \<in> grid_cells b" and sub: "set draws \<subseteq> grid_cells b"
    by (auto simp: x)
  note gv = get_value_wf [OF Cons.prems(1) xg]
  show ?case
  proof (cases "placed < mines")
    case False
    then show ?thesis by simp
  next
    case less: True
    show ?thesis
    proof (cases "is_mine b (i, j)")
      case True
      then have "set (x # draws) - mine_cells b = set draws - mine_cells b"
        using xg by (auto simp: x mine_cells_def)
      then have "scatter b placed mines draws \<noteq> None"
        using Cons.prems by (intro Cons.IH) simp_all
      then show ?thesis using less True by (simp add: x gv is_mine_def)
    next
      case False
      let ?b' = "put_cell b (i, j) ''*H''"
      have wf': "wf_board ?b'" by (simp add: wf_put_cell Cons.prems(1))
      have mc: "mine_cells ?b' = insert (i, j) (mine_cells b)"
        by (rule mine_cells_put_mine [OF Cons.prems(1) xg])
      have "set (x # draws) - mine_cells b \<subseteq> insert x (set draws - mine_cells ?b')"
        by (auto simp: mc x)
      then have "card (set (x # draws) - mine_cells b) \<le> card (insert x (set draws - mine_cells ?b'))"
        by (intro card_mono) simp_all
      also have "\<dots> \<le> Suc (card (set draws - mine_cells ?b'))"
        by (simp add: card_insert_if)
      finally have "mines - (placed + 1) \<le> int (card (set draws - mine_cells ?b'))"
        using Cons.prems(3) by simp
      then have "scatter ?b' (placed + 1) mines draws \<noteq> None"
        using wf' sub by (intro Cons.IH) simp_all
      then show ?thesis
        using less False by (simp add: x gv is_mine_def set_cell_wf [OF Cons.prems(1) xg])
    qed
  qed
qed

lemma put_mines_example:
  "put_mines \<lparr> rows = 1, columns = 2, board = [[''0H'', ''0H'']] \<rparr> 1 [(0, 1), (0, 0)] =
     Some (Inr (), \<lparr> rows = 1, columns = 2, board = [[''1H'', ''*H'']] \<rparr>)"
  by code_simp

subsection \<open>Saving and loading\<close>

lemma map_nth_upto: "map (\<lambda>j. xs ! nat j) [0 .. int (length xs) - 1] = xs"
proof (rule nth_equalityI)
  show "length (map (\<lambda>j. xs ! nat j) [0 .. int (length xs) - 1]) = length xs" by simp
next
  fix k assume "k < length (map (\<lambda>j. xs ! nat j) [0 .. int (length xs) - 1])"
  then have k: "k < length xs" by simp
  then have "[0 .. int (length xs) - 1] ! k = 0 + int k" by (intro nth_upto) simp
  then show "map (\<lambda>j. xs ! nat j) [0 .. int (length xs) - 1] ! k = xs ! k"
    using k by simp
qed

lemma save_row_wf:
  assumes "wf_board b" "0 \<le> i" "i < rows b"
  shows "set js \<subseteq> {0 ..< columns b} \<Longrightarrow>
         save_row b i js out = Inr (out @ concat (map (\<lambda>j. board b ! nat i ! nat j @ '' '') js))"
proof (induction js arbitrary: out)
  case Nil
  then show ?case by simp
next
  case (Cons j js)
  then have "(i, j) \<in> grid_cells b" using assms by (simp add: in_grid_iff)
  then have "cell_at b i j = Inr (board b ! nat i ! nat j)"
    using cell_at_wf [OF assms(1)] by (simp add: cell_of_def)
  then show ?case using Cons by simp
qed

lemma save_row_all:
  assumes "wf_board b" "0 \<le> i" "i < rows b"
  shows "save_row b i [0 .. columns b - 1] out = Inr (out @ row_text (board b ! nat i))"
proof -
  have ni: "nat i < length (board b)" using assms by (auto simp: wf_board_def)
  then have "board b ! nat i \<in> set (board b)" by simp
  then have len: "columns b = int (length (board b ! nat i))"
    using assms(1) by (auto simp: wf_board_def)
  have "map (\<lambda>j. board b ! nat i ! nat j @ '' '') [0 .. columns b - 1] =
        map (\<lambda>c. c @ '' '') (map (\<lambda>j. board b ! nat i ! nat j) [0 .. columns b - 1])"
    by simp
  also have "\<dots> = map (\<lambda>c. c @ '' '') (board b ! nat i)"
    unfolding len by (simp only: map_nth_upto)
  finally have eq: "map (\<lambda>j. board b ! nat i ! nat j @ '' '') [0 .. columns b - 1] =
                   map (\<lambda>c. c @ '' '') (board b ! nat i)" .
  have sub: "set [0 .. columns b - 1] \<subseteq> {0 ..< columns b}" by auto
  show ?thesis
    unfolding save_row_wf [OF assms sub] eq row_text_def ..
qed

lemma save_rows_wf:
  assumes "wf_board b"
  shows "set is \<subseteq> {0 ..< rows b} \<Longrightarrow>
         save_rows b is out = Inr (out @ concat (map (\<lambda>i. row_line (board b ! nat i)) is))"
proof (induction "is" arbitrary: out)
  case Nil
  then show ?case by simp
next
  case (Cons i "is")
  then have "0 \<le> i" "i < rows b" by simp_all
  from save_row_all [OF assms this] Cons show ?case by (simp add: row_line_def)
qed

lemma save_board_wf:
  assumes "wf_board b"
  shows "save_board b =
           Inr (str_int (rows b) @ [CHR 0x0A] @ str_int (columns b) @ [CHR 0x0A] @
                concat (map row_line (board b)))"
proof -
  have len: "rows b = int (length (board b))" using assms by (simp add: wf_board_def)
  have "map (\<lambda>i. row_line (board b ! nat i)) [0 .. rows b - 1] =
        map row_line (map (\<lambda>i. board b ! nat i) [0 .. rows b - 1])" by simp
  also have "\<dots> = map row_line (board b)" unfolding len by (simp only: map_nth_upto)
  finally have eq: "map (\<lambda>i. row_line (board b ! nat i)) [0 .. rows b - 1] =
                   map row_line (board b)" .
  have sub: "set [0 .. rows b - 1] \<subseteq> {0 ..< rows b}" by auto
  show ?thesis
    unfolding save_board_def save_rows_wf [OF assms sub] eq by simp
qed

lemma py_lines_line:
  "CHR 0x0A \<notin> set l \<Longrightarrow> py_lines (l @ CHR 0x0A # rest) = (l @ [CHR 0x0A]) # py_lines rest"
  by (induction l) auto

lemma py_lines_concat:
  "\<forall>l \<in> set ls. CHR 0x0A \<notin> set l \<Longrightarrow>
   py_lines (concat (map (\<lambda>l. l @ [CHR 0x0A]) ls)) = map (\<lambda>l. l @ [CHR 0x0A]) ls"
  by (induction ls) (simp_all add: py_lines_line)

lemma set_digits: "set (digits n) \<subseteq> set ''0123456789''"
proof (induction n rule: digits.induct)
  case (1 n)
  have d: "k < 10 \<Longrightarrow> ''0123456789'' ! k \<in> set ''0123456789''" for k
    by (intro nth_mem) simp
  show ?case
  proof (cases "n < 10")
    case True
    then show ?thesis using d [of n] by (subst digits.simps) simp
  next
    case False
    have "n mod 10 < 10" by simp
    then show ?thesis using False "1.IH" d [of "n mod 10"] by (subst digits.simps) simp
  qed
qed

lemma str_int_no_newline: "CHR 0x0A \<notin> set (str_int n)"
  using set_digits [of "nat n"] set_digits [of "nat (- n)"] by (auto simp: str_int_def)


lemma valid_cell_chars:
  assumes "valid_cell c"
  shows "\<exists>x y. c = [x, y] \<and> \<not> is_space x \<and> \<not> is_space y"
proof -
  from assms have len: "length c = 2" by (simp add: valid_cell_def)
  then obtain x y where c: "c = [x, y]"
    by (cases c; cases "tl c") auto
  from assms have "x \<in> set ''012345678*''" "y \<in> set ''HS''" by (simp_all add: valid_cell_def c)
  then have "\<not> is_space x \<and> \<not> is_space y" by (auto simp: is_space_def)
  with c show ?thesis by blast
qed

lemma valid_cell_no_space: "valid_cell c \<Longrightarrow> CHR '' '' \<notin> set c"
  using valid_cell_chars [of c] by (auto simp: is_space_def)

lemma valid_cell_no_newline: "valid_cell c \<Longrightarrow> CHR 0x0A \<notin> set c"
  using valid_cell_chars [of c] by (auto simp: is_space_def)

lemma row_text_join: "r \<noteq> [] \<Longrightarrow> row_text r = join_cells r @ '' ''"
  by (induction r rule: join_cells.induct) (simp_all add: row_text_def)

lemma join_cells_ends:
  "r \<noteq> [] \<Longrightarrow> \<forall>c \<in> set r. valid_cell c \<Longrightarrow>
   join_cells r \<noteq> [] \<and> \<not> is_space (hd (join_cells r)) \<and> \<not> is_space (last (join_cells r))"
proof (induction r rule: join_cells.induct)
  case 1
  then show ?case by simp
next
  case (2 c)
  then show ?case using valid_cell_chars [of c] by auto
next
  case (3 c c' cs)
  then show ?case using valid_cell_chars [of c] by auto
qed

lemma split_space_token:
  "CHR '' '' \<notin> set c \<Longrightarrow> split_space (c @ CHR '' '' # rest) = c # split_space rest"
  by (induction c) auto

lemma split_space_single: "CHR '' '' \<notin> set c \<Longrightarrow> split_space c = [c]"
  by (induction c) auto

lemma split_space_join:
  "r \<noteq> [] \<Longrightarrow> \<forall>c \<in> set r. CHR '' '' \<notin> set c \<Longrightarrow> split_space (join_cells r) = r"
proof (induction r rule: join_cells.induct)
  case 1
  then show ?case by simp
next
  case (2 c)
  then show ?case by (simp add: split_space_single)
next
  case (3 c c' cs)
  then show ?case by (simp add: split_space_token)
qed

lemma strip_core:
  assumes "s \<noteq> []" "\<not> is_space (hd s)" "\<not> is_space (last s)" "\<forall>ch \<in> set t. is_space ch"
  shows "strip (s @ t) = s"
proof -
  have front: "dropWhile is_space (s @ t) = s @ t"
    using assms(1,2) by (cases s) simp_all
  have "rev (s @ t) = rev t @ rev s" by simp
  moreover have "dropWhile is_space (rev t @ rev s) = dropWhile is_space (rev s)"
    using assms(4) by (intro dropWhile_append2) simp
  moreover have "dropWhile is_space (rev s) = rev s"
    using assms(1,3) by (cases "rev s") (auto simp: last_rev hd_rev)
  ultimately show ?thesis by (simp add: strip_def front)
qed

lemma strip_row_line:
  assumes "r \<noteq> []" "\<forall>c \<in> set r. valid_cell c"
  shows "strip (row_line r) = join_cells r"
proof -
  have rl: "row_line r = join_cells r @ [CHR '' '', CHR 0x0A]"
    by (simp add: row_line_def row_text_join [OF assms(1)])
  have sp: "\<forall>ch \<in> set [CHR '' '', CHR 0x0A]. is_space ch" by (simp add: is_space_def)
  from join_cells_ends [OF assms]
  have e: "join_cells r \<noteq> []" "\<not> is_space (hd (join_cells r))"
    "\<not> is_space (last (join_cells r))" by simp_all
  show ?thesis unfolding rl by (rule strip_core [OF e sp])
qed

lemma check_cells_valid: "\<forall>c \<in> set r. valid_cell c \<Longrightarrow> check_cells r = Inr ()"
  by (induction r) (simp_all add: valid_cell_def)

lemma load_loop_rows:
  "\<forall>r \<in> set rs. r \<noteq> [] \<and> int (length r) = columns b \<and> (\<forall>c \<in> set r. valid_cell c) \<Longrightarrow>
   load_loop b n (map row_line rs) = (Inr (n + int (length rs)), b\<lparr>board := board b @ rs\<rparr>)"
proof (induction rs arbitrary: b n)
  case Nil
  then show ?case by simp
next
  case (Cons r rs)
  then have r: "r \<noteq> []" "int (length r) = columns b" "\<forall>c \<in> set r. valid_cell c" by simp_all
  have st: "strip (row_line r) = join_cells r" by (rule strip_row_line [OF r(1,3)])
  have ne: "join_cells r \<noteq> []" using join_cells_ends [OF r(1,3)] by simp
  have sp: "split_space (join_cells r) = r"
    using r(3) by (intro split_space_join [OF r(1)]) (simp add: valid_cell_no_space)
  have cc: "check_cells r = Inr ()" by (rule check_cells_valid [OF r(3)])
  let ?b' = "b\<lparr>board := board b @ [r]\<rparr>"
  have "load_loop ?b' (n + 1) (map row_line rs) =
          (Inr (n + 1 + int (length rs)), ?b'\<lparr>board := board ?b' @ rs\<rparr>)"
    using Cons.prems by (intro Cons.IH) simp
  then show ?case using ne r(2) by (simp add: st sp cc Let_def)
qed


lemma row_text_no_newline:
  "\<forall>c \<in> set r. valid_cell c \<Longrightarrow> CHR 0x0A \<notin> set (row_text r)"
  by (auto simp: row_text_def dest: valid_cell_no_newline)

lemma py_lines_save:
  assumes "\<forall>r \<in> set rs. \<forall>c \<in> set r. valid_cell c"
  shows "py_lines (str_int m @ [CHR 0x0A] @ str_int n @ [CHR 0x0A] @ concat (map row_line rs)) =
           (str_int m @ [CHR 0x0A]) # (str_int n @ [CHR 0x0A]) # map row_line rs"
proof -
  have "map row_line rs = map (\<lambda>l. l @ [CHR 0x0A]) (map row_text rs)"
    by (simp add: row_line_def)
  moreover have "\<forall>l \<in> set (map row_text rs). CHR 0x0A \<notin> set l"
    using assms by (auto simp: row_text_no_newline)
  ultimately have "py_lines (concat (map row_line rs)) = map row_line rs"
    by (simp only: py_lines_concat)
  then show ?thesis
    by (simp add: py_lines_line [OF str_int_no_newline])
qed

subsection \<open>The ripple loop and the breadth-first cascade\<close>

lemma get_neighbours_clockwise:
  "get_neighbours b x = filter (in_bounds b) (clockwise x)"
  by (simp add: get_neighbours_def clockwise_def in_bounds_def Let_def case_prod_beta)

lemma ripple_loop_refines:
  "wf_board b \<Longrightarrow> set q \<subseteq> grid_cells b \<Longrightarrow>
   ripple_loop b s q = Inr (s @ cascade_bfs b (set s \<union> set q) q)"
proof (induction b s q rule: ripple_loop.induct)
  case (1 b s)
  then show ?case by simp
next
  case (2 b s x q)
  obtain i j where x: "x = (i, j)" by (cases x)
  have wf: "wf_board b" using "2.prems" by simp
  from "2.prems" have xg: "(i, j) \<in> grid_cells b" and qg: "set q \<subseteq> grid_cells b"
    by (simp_all add: x)
  have gv: "get_value b (fst x) (snd x) = Inr (cval b x)"
    using get_value_wf [OF wf xg] by (simp add: x)
  show ?case
  proof (cases "cval b x = CHR ''0''")
    case False
    have "ripple_loop b (s @ [x]) q = Inr ((s @ [x]) @ cascade_bfs b (set (s @ [x]) \<union> set q) q)"
      using False by (intro "2.IH"(1) [OF refl gv] wf qg) simp
    moreover have "set (s @ [x]) \<union> set q = set s \<union> set (x # q)" by auto
    ultimately show ?thesis using False gv by simp
  next
    case True
    let ?seen = "set s \<union> set (x # q)"
    let ?hn = "filter (\<lambda>y. \<not> revealed b y) (get_neighbours b x)"
    let ?new = "filter (\<lambda>y. y \<notin> set (s @ [x]) \<and> y \<notin> set q) ?hn"
    have ho: "hidden_only b (get_neighbours b x) = Inr ?hn"
      by (rule hidden_only_wf [OF wf get_neighbours_in_grid])
    have new: "?new = fresh_neighbours b ?seen x"
      unfolding fresh_neighbours_def get_neighbours_clockwise filter_filter
      by (rule filter_cong) auto
    have newg: "set (q @ ?new) \<subseteq> grid_cells b"
      using qg get_neighbours_in_grid [of b x] by auto
    have ih: "ripple_loop b (s @ [x]) (q @ ?new) =
            Inr ((s @ [x]) @ cascade_bfs b (set (s @ [x]) \<union> set (q @ ?new)) (q @ ?new))"
      using True by (intro "2.IH"(2) [OF refl gv _ ho] wf newg) simp
    have seteq: "set (s @ [x]) \<union> set (q @ ?new) = ?seen \<union> set ?new" by auto
    have step: "ripple_loop b s (x # q) = ripple_loop b (s @ [x]) (q @ ?new)"
      using True gv ho by simp
    have "cascade_bfs b ?seen (x # q) =
            x # cascade_bfs b (?seen \<union> set (fresh_neighbours b ?seen x))
                  (q @ fresh_neighbours b ?seen x)"
      using True by (simp only: cascade_bfs.simps refl if_True)
    then have c: "cascade_bfs b ?seen (x # q) = x # cascade_bfs b (?seen \<union> set ?new) (q @ ?new)"
      by (simp only: new)
    show ?thesis unfolding step ih seteq c by simp
  qed
qed

subsection \<open>Empty tokens\<close>

lemma empty_token_tail: "[] \<in> set (tl (split_space (a @ ''  '' @ c)))"
proof (induction a)
  case Nil
  then show ?case by simp
next
  case (Cons ch a)
  show ?case
  proof (cases "ch = CHR '' ''")
    case True
    have "set (tl (split_space (a @ ''  '' @ c))) \<subseteq> set (split_space (a @ ''  '' @ c))"
      by (cases "split_space (a @ ''  '' @ c)") auto
    then show ?thesis using True Cons by auto
  next
    case False
    then show ?thesis using Cons by (cases "split_space (a @ ''  '' @ c)") auto
  qed
qed

lemma check_cells_empty_token: "[] \<in> set r \<Longrightarrow> check_cells r = Inl BoardFormatException"
  by (induction r) auto

lemma double_space_rejected:
  "check_cells (split_space (a @ ''  '' @ c)) = Inl BoardFormatException"
proof -
  have "set (tl (split_space (a @ ''  '' @ c))) \<subseteq> set (split_space (a @ ''  '' @ c))"
    by (cases "split_space (a @ ''  '' @ c)") auto
  then have "[] \<in> set (split_space (a @ ''  '' @ c))" using empty_token_tail [of a c] by blast
  then show ?thesis by (rule check_cells_empty_token)
qed

subsection \<open>Boards built by the constructor\<close>

text \<open>What \<open>__init__\<close> builds is a valid board in the start state.\<close>

lemma init_Board_start:
  assumes "init_Board rws cls = Inr b"
  shows "valid_board b" "start_state b" "rows b = rws" "columns b = cls"
proof -
  from assms have dims: "1 \<le> rws" "rws \<le> 20" "2 \<le> cls" "cls \<le> 50"
    and b: "b = \<lparr> rows = rws, columns = cls,
                  board = replicate (nat rws) (replicate (nat cls) ''0H'') \<rparr>"
    by (auto simp: init_Board_def split: if_splits)
  show "rows b = rws" "columns b = cls" by (simp_all add: b)
  have wf: "wf_board b" using dims by (auto simp: b wf_board_def)
  show "valid_board b" using dims by (auto simp: b valid_board_def wf_board_def valid_cell_def)
  show "start_state b"
    unfolding start_state_def
  proof
    fix x assume x: "x \<in> grid_cells b"
    obtain i j where ij: "x = (i, j)" by (cases x)
    from x have "nat i < nat rws" "nat j < nat cls" by (auto simp: ij b grid_cells_def)
    then have "cell_of b x = ''0H''" by (simp add: cell_of_def ij b)
    then show "cval b x = CHR ''0'' \<and> \<not> revealed b x" by (simp add: cval_def revealed_def)
  qed
qed

section \<open>Loading: error precedence\<close>

text \<open>
  C1. The docstring of \<open>load_board\<close> promises \<open>BoardFormatException\<close> whenever both
  exceptions are possible. The loop checks the width of each line before it reads the
  next one: for a board of 2 by 2 and the lines \<open>0H\<close> (one valid token, width wrong) and
  \<open>0X 0H\<close> (a malformed token), it raises \<open>DimensionsMismatchException\<close> at the first
  line and never sees the second.
\<close>

theorem load_board_dimension_before_format:
  "fst (load_board \<lparr> rows = 2, columns = 2, board = [] \<rparr> [''0H'', ''0X 0H''])
     = Inl DimensionsMismatchException"
  by (simp add: load_board_def strip_def is_space_def)

text \<open>
  C10. A line in which two tokens are separated by two spaces splits into a list with an
  empty token, and \<open>check_cells\<close> rejects it with \<open>BoardFormatException\<close> (lemma
  \<open>double_space_rejected\<close>). The loop reaches that line only when no earlier line has
  failed: for a board of 2 by 2 and the lines \<open>0H\<close> and \<open>0H  1H\<close> it raises
  \<open>DimensionsMismatchException\<close> at the first line, as in C1.
\<close>

theorem load_board_double_space_after_short_line:
  "fst (load_board \<lparr> rows = 2, columns = 2, board = [] \<rparr> [''0H'', ''0H  1H''])
     = Inl DimensionsMismatchException"
  by (simp add: load_board_def strip_def is_space_def)

section \<open>Game status\<close>

text \<open>
  C4. On every well-formed board \<open>get_status\<close> answers \<open>Lose\<close> when some mine is
  uncovered, whatever else holds (also when every other cell is uncovered); otherwise
  \<open>NotStarted\<close> when no cell is uncovered; otherwise \<open>Win\<close> when every cell without a
  mine is uncovered; otherwise \<open>InProgress\<close>.
\<close>

theorem get_status_order:
  "wf_board b \<Longrightarrow>
   get_status b =
     Inr (if \<exists>x \<in> grid_cells b. is_mine b x \<and> revealed b x then Lose
          else if \<not> (\<exists>x \<in> grid_cells b. revealed b x) then NotStarted
          else if \<forall>x \<in> grid_cells b. \<not> is_mine b x \<longrightarrow> revealed b x then Win
          else InProgress)"
  by (rule get_status_wf)

text \<open>A board of one row with an uncovered mine and every other cell uncovered: \<open>Lose\<close>.\<close>

theorem get_status_order_witness:
  "wf_board \<lparr> rows = 1, columns = 2, board = [[''*S'', ''1S'']] \<rparr> \<and>
   get_status \<lparr> rows = 1, columns = 2, board = [[''*S'', ''1S'']] \<rparr> = Inr Lose"
proof -
  let ?b = "\<lparr> rows = 1, columns = 2, board = [[''*S'', ''1S'']] \<rparr>"
  have h: "wf_board ?b" by (simp add: wf_board_def)
  have g: "grid_cells ?b = {(0, 0), (0, 1)}" by (auto simp: grid_cells_def)
  have m: "is_mine ?b (0, 0) \<and> revealed ?b (0, 0)"
    by (simp add: is_mine_def revealed_def cval_def cell_of_def)
  show ?thesis using h m get_status_order [OF h] by (simp add: g)
qed

section \<open>The ripple sequence is a query\<close>

text \<open>
  C9. \<open>ripple_sequence\<close> contains no assignment to the board, so its model takes the
  board and returns the sequence only: calling it again on the same board with the same
  start cell gives the same sequence. On a well-formed board and a start cell inside the
  grid it returns a sequence in which no coordinate occurs twice, which does not contain
  the start cell and whose cells all lie inside the grid.
\<close>

theorem ripple_sequence_pure_distinct:
  "wf_board b \<Longrightarrow> (row, column) \<in> grid_cells b \<Longrightarrow>
   \<exists>rs. ripple_sequence b row column = Inr rs \<and> distinct rs \<and> (row, column) \<notin> set rs \<and>
        set rs \<subseteq> grid_cells b"
  using ripple_sequence_wf [of b row column] by auto

theorem ripple_sequence_pure_distinct_witness:
  "wf_board \<lparr> rows = 2, columns = 2, board = [[''0S'', ''0H''], [''1H'', ''1H'']] \<rparr> \<and>
   (0, 0) \<in> grid_cells \<lparr> rows = 2, columns = 2, board = [[''0S'', ''0H''], [''1H'', ''1H'']] \<rparr> \<and>
   (\<exists>rs. ripple_sequence \<lparr> rows = 2, columns = 2, board = [[''0S'', ''0H''], [''1H'', ''1H'']] \<rparr> 0 0 = Inr rs
         \<and> distinct rs \<and> (0, 0) \<notin> set rs)"
proof -
  let ?b = "\<lparr> rows = 2, columns = 2, board = [[''0S'', ''0H''], [''1H'', ''1H'']] \<rparr>"
  have h: "wf_board ?b" by (simp add: wf_board_def)
  have g: "(0, 0) \<in> grid_cells ?b" by (simp add: grid_cells_def)
  show ?thesis using h g ripple_sequence_pure_distinct [OF h g] by blast
qed

text \<open>
  C3. On a well-formed board and a start cell inside the grid, \<open>ripple_sequence\<close>
  returns exactly the sequence of the breadth-first cascade of the specification
  (\<open>ComputeCascade\<close>): cells with value \<open>0\<close> are expanded, neighbours are taken
  clockwise from above and clipped to the grid, only hidden cells not visited or queued
  are enqueued, the start cell is left out, and a start cell that is not \<open>0\<close> gives the
  empty sequence.
\<close>

theorem ripple_sequence_is_cascade:
  "wf_board b \<Longrightarrow> (row, column) \<in> grid_cells b \<Longrightarrow>
   ripple_sequence b row column = Inr (ComputeCascade b (row, column))"
proof -
  assume wf: "wf_board b" and g: "(row, column) \<in> grid_cells b"
  have "ripple_loop b [] [(row, column)] =
          Inr ([] @ cascade_bfs b (set [] \<union> set [(row, column)]) [(row, column)])"
    using g by (intro ripple_loop_refines [OF wf]) simp
  then have rs: "ripple_sequence b row column =
                   Inr (drop 1 (cascade_bfs b {(row, column)} [(row, column)]))"
    by (simp add: ripple_sequence_def checkIndices_in [OF g])
  show ?thesis
  proof (cases "cval b (row, column) = CHR ''0''")
    case True
    then show ?thesis by (simp add: rs ComputeCascade_def)
  next
    case False
    then have "cascade_bfs b {(row, column)} [(row, column)] = [(row, column)]" by simp
    then show ?thesis using False by (simp add: rs ComputeCascade_def)
  qed
qed

text \<open>From the uncovered corner of a 2 by 4 board the cascade reaches the two digits
  \<open>1\<close> in the third column, which are in the result and are not expanded.\<close>

theorem ripple_sequence_is_cascade_witness:
  "ripple_sequence \<lparr> rows = 2, columns = 4,
        board = [[''0S'', ''0H'', ''1H'', ''*H''], [''0H'', ''0H'', ''1H'', ''1H'']] \<rparr> 0 0
     = Inr [(0, 1), (1, 1), (1, 0), (0, 2), (1, 2)]"
proof -
  let ?b = "\<lparr> rows = 2, columns = 4,
        board = [[''0S'', ''0H'', ''1H'', ''*H''], [''0H'', ''0H'', ''1H'', ''1H'']] \<rparr>"
  have h: "wf_board ?b" by (simp add: wf_board_def)
  have g: "(0, 0) \<in> grid_cells ?b" by (simp add: grid_cells_def)
  have c: "ComputeCascade ?b (0, 0) = [(0, 1), (1, 1), (1, 0), (0, 2), (1, 2)]" by code_simp
  from ripple_sequence_is_cascade [OF h g] c show ?thesis by simp
qed

section \<open>Moves\<close>

text \<open>
  C5. On a well-formed board, \<open>make_move\<close> on a hidden cell inside the grid uncovers it
  and returns its value; for a mine or a nonzero digit nothing else changes; for \<open>0\<close> it
  takes the ripple sequence of the board with that cell uncovered and uncovers its cells
  from left to right, none of which fails, then returns the value. When the first
  \<open>uncover\<close> fails (indices outside the grid, or cell already uncovered) the exception is
  passed on and the board is the one given.
\<close>

theorem make_move_steps:
  "wf_board b \<Longrightarrow>
   ((row, column) \<notin> grid_cells b \<longrightarrow>
      make_move b row column = (Inl IllegalIndicesException, b)) \<and>
   ((row, column) \<in> grid_cells b \<and> revealed b (row, column) \<longrightarrow>
      make_move b row column = (Inl IllegalMoveException, b)) \<and>
   ((row, column) \<in> grid_cells b \<and> \<not> revealed b (row, column) \<longrightarrow>
      (if cval b (row, column) \<noteq> CHR ''0''
       then make_move b row column = (Inr (cval b (row, column)), reveal b (row, column))
       else \<exists>rs. ripple_sequence (reveal b (row, column)) row column = Inr rs \<and>
              make_move b row column =
                (Inr (cval b (row, column)), foldl reveal (reveal b (row, column)) rs)))"
  using make_move_out [of row column b] make_move_revealed [of b row column]
    make_move_hidden [of b row column]
  by blast

theorem make_move_steps_witness:
  "make_move \<lparr> rows = 2, columns = 2, board = [[''0H'', ''0H''], [''1H'', ''1H'']] \<rparr> 0 0 =
     (Inr (CHR ''0''), \<lparr> rows = 2, columns = 2, board = [[''0S'', ''0S''], [''1S'', ''1S'']] \<rparr>)
   \<and> make_move \<lparr> rows = 2, columns = 2, board = [[''0S'', ''0H''], [''1H'', ''1H'']] \<rparr> 0 0 =
     (Inl IllegalMoveException, \<lparr> rows = 2, columns = 2, board = [[''0S'', ''0H''], [''1H'', ''1H'']] \<rparr>)
   \<and> make_move \<lparr> rows = 2, columns = 2, board = [[''0S'', ''0H''], [''1H'', ''1H'']] \<rparr> 0 2 =
     (Inl IllegalIndicesException, \<lparr> rows = 2, columns = 2, board = [[''0S'', ''0H''], [''1H'', ''1H'']] \<rparr>)"
proof -
  let ?a = "\<lparr> rows = 2, columns = 2, board = [[''0H'', ''0H''], [''1H'', ''1H'']] \<rparr>"
  let ?b = "\<lparr> rows = 2, columns = 2, board = [[''0S'', ''0H''], [''1H'', ''1H'']] \<rparr>"
  have ha: "wf_board ?a" and hb: "wf_board ?b" by (simp_all add: wf_board_def)
  have ga: "(0, 0) \<in> grid_cells ?a" "\<not> revealed ?a (0, 0)" "cval ?a (0, 0) = CHR ''0''"
    "reveal ?a (0, 0) = ?b"
    by (simp_all add: grid_cells_def revealed_def cval_def cell_of_def reveal_def put_cell_def)
  have rb: "ripple_sequence ?b 0 0 = Inr [(0, 1), (1, 1), (1, 0)]" by code_simp
  have fb: "foldl reveal ?b [(0, 1), (1, 1), (1, 0)] =
              \<lparr> rows = 2, columns = 2, board = [[''0S'', ''0S''], [''1S'', ''1S'']] \<rparr>"
    by (simp add: reveal_def put_cell_def cval_def cell_of_def)
  have gb: "(0, 0) \<in> grid_cells ?b" "revealed ?b (0, 0)" "(0, 2) \<notin> grid_cells ?b"
    by (simp_all add: grid_cells_def revealed_def cell_of_def)
  from make_move_steps [OF ha, of 0 0] ga rb fb
  have 1: "make_move ?a 0 0 =
     (Inr (CHR ''0''), \<lparr> rows = 2, columns = 2, board = [[''0S'', ''0S''], [''1S'', ''1S'']] \<rparr>)"
    by simp
  from make_move_steps [OF hb, of 0 0] gb have 2: "make_move ?b 0 0 = (Inl IllegalMoveException, ?b)"
    by simp
  from make_move_steps [OF hb, of 0 2] gb have 3: "make_move ?b 0 2 = (Inl IllegalIndicesException, ?b)"
    by simp
  from 1 2 3 show ?thesis by simp
qed

text \<open>
  C2. From a lost game (well-formed board), \<open>make_move\<close> at any coordinates leaves the
  status \<open>Lose\<close>, whether it raises or not. A move on an uncovered cell raises
  \<open>IllegalMoveException\<close> and changes nothing, in every status. From a won game a move
  outside the grid or on an uncovered cell raises and leaves the board as it is; a move
  on a hidden cell, which is then a mine, succeeds, returns \<open>*\<close> and turns the status
  into \<open>Lose\<close>: \<open>make_move\<close> itself does not look at the status, the loop in \<open>run\<close>
  offers moves only while the status is \<open>NotStarted\<close> or \<open>InProgress\<close>.
\<close>

theorem make_move_after_end:
  "wf_board b \<Longrightarrow>
   (get_status b = Inr Lose \<longrightarrow> get_status (snd (make_move b row column)) = Inr Lose) \<and>
   ((row, column) \<in> grid_cells b \<and> revealed b (row, column) \<longrightarrow>
      make_move b row column = (Inl IllegalMoveException, b)) \<and>
   (get_status b = Inr Win \<longrightarrow>
      (if (row, column) \<in> grid_cells b \<and> \<not> revealed b (row, column)
       then fst (make_move b row column) = Inr (CHR ''*'') \<and>
            get_status (snd (make_move b row column)) = Inr Lose
       else \<exists>e. make_move b row column = (Inl e, b)))"
proof -
  assume wf: "wf_board b"
  let ?x = "(row, column)"
  have lost: "get_status b = Inr Lose \<longrightarrow> get_status (snd (make_move b row column)) = Inr Lose"
    using make_move_keeps [OF wf, of row column]
    by (simp add: get_status_Lose_iff wf)
  have rev: "?x \<in> grid_cells b \<and> revealed b ?x \<longrightarrow>
               make_move b row column = (Inl IllegalMoveException, b)"
    by (simp add: make_move_revealed wf)
  have won: "get_status b = Inr Win \<longrightarrow>
      (if ?x \<in> grid_cells b \<and> \<not> revealed b ?x
       then fst (make_move b row column) = Inr (CHR ''*'') \<and>
            get_status (snd (make_move b row column)) = Inr Lose
       else \<exists>e. make_move b row column = (Inl e, b))"
  proof
    assume w: "get_status b = Inr Win"
    show "if ?x \<in> grid_cells b \<and> \<not> revealed b ?x
       then fst (make_move b row column) = Inr (CHR ''*'') \<and>
            get_status (snd (make_move b row column)) = Inr Lose
       else \<exists>e. make_move b row column = (Inl e, b)"
    proof (cases "?x \<in> grid_cells b \<and> \<not> revealed b ?x")
      case True
      then have g: "?x \<in> grid_cells b" and h: "\<not> revealed b ?x" by simp_all
      have mine: "is_mine b ?x" using get_status_Win_D(2) [OF wf w] g h by blast
      then have v: "cval b ?x = CHR ''*''" by (simp add: is_mine_def)
      have mm: "make_move b row column = (Inr (CHR ''*''), reveal b ?x)"
        using make_move_hidden [OF wf g h] v by simp
      have "is_mine (reveal b ?x) ?x \<and> revealed (reveal b ?x) ?x"
        using mine by (simp add: is_mine_reveal [OF wf g g] revealed_reveal [OF wf g g])
      then have "mine_uncovered (reveal b ?x)" using g by (auto simp: mine_uncovered_def)
      then have "get_status (reveal b ?x) = Inr Lose"
        by (simp add: get_status_Lose_iff wf_reveal [OF wf])
      then show ?thesis using True mm by simp
    next
      case False
      then have "?x \<notin> grid_cells b \<or> ?x \<in> grid_cells b \<and> revealed b ?x" by blast
      then have "\<exists>e. make_move b row column = (Inl e, b)"
        using make_move_out [of row column b] make_move_revealed [OF wf, of row column] by blast
      then show ?thesis using False by (simp only: if_False)
    qed
  qed
  from lost rev won show ?thesis by blast
qed

theorem make_move_after_end_witness:
  "get_status (snd (make_move \<lparr> rows = 1, columns = 3, board = [[''*S'', ''1H'', ''0H'']] \<rparr> 0 2)) = Inr Lose
   \<and> make_move \<lparr> rows = 1, columns = 2, board = [[''1S'', ''*H'']] \<rparr> 0 0 =
       (Inl IllegalMoveException, \<lparr> rows = 1, columns = 2, board = [[''1S'', ''*H'']] \<rparr>)
   \<and> get_status (snd (make_move \<lparr> rows = 1, columns = 2, board = [[''1S'', ''*H'']] \<rparr> 0 1)) = Inr Lose"
proof -
  let ?a = "\<lparr> rows = 1, columns = 3, board = [[''*S'', ''1H'', ''0H'']] \<rparr>"
  let ?b = "\<lparr> rows = 1, columns = 2, board = [[''1S'', ''*H'']] \<rparr>"
  have ha: "wf_board ?a" and hb: "wf_board ?b" by (simp_all add: wf_board_def)
  have sa: "get_status ?a = Inr Lose" by code_simp
  have sb: "get_status ?b = Inr Win" by code_simp
  have gb: "(0, 0) \<in> grid_cells ?b" "revealed ?b (0, 0)" "(0, 1) \<in> grid_cells ?b"
    "\<not> revealed ?b (0, 1)"
    by (simp_all add: grid_cells_def revealed_def cell_of_def)
  from make_move_after_end [OF ha, of 0 2] sa
  have 1: "get_status (snd (make_move ?a 0 2)) = Inr Lose" by simp
  from make_move_after_end [OF hb, of 0 0] gb
  have 2: "make_move ?b 0 0 = (Inl IllegalMoveException, ?b)" by simp
  from make_move_after_end [OF hb, of 0 1] sb gb
  have 3: "get_status (snd (make_move ?b 0 1)) = Inr Lose" by simp
  from 1 2 3 show ?thesis by simp
qed

text \<open>The board \<open>1S *H\<close> is won; the move on its hidden mine succeeds and the game is
  lost.\<close>

theorem make_move_won_to_lost:
  "get_status \<lparr> rows = 1, columns = 2, board = [[''1S'', ''*H'']] \<rparr> = Inr Win \<and>
   fst (make_move \<lparr> rows = 1, columns = 2, board = [[''1S'', ''*H'']] \<rparr> 0 1) = Inr (CHR ''*'') \<and>
   get_status (snd (make_move \<lparr> rows = 1, columns = 2, board = [[''1S'', ''*H'']] \<rparr> 0 1)) = Inr Lose"
  by code_simp

section \<open>Scattering mines\<close>

text \<open>
  C7. Take a well-formed board in its start state, a count \<open>k\<close> with
  \<open>1 \<le> k \<le> rows * columns - 1\<close> and random draws inside the grid (what
  \<open>randint(0, rows-1)\<close> and \<open>randint(0, columns-1)\<close> return). Whenever \<open>put_mines\<close>
  terminates it raises nothing, exactly \<open>k\<close> cells of the grid hold a mine, and every
  cell without a mine holds the digit that counts the mines among its neighbours inside
  the grid (at most 8). Lemma \<open>scatter_terminates\<close> says when the loop ends: as soon as
  the draws contain enough cells that are free of mines.
\<close>

theorem put_mines_places_and_counts:
  "wf_board b \<Longrightarrow> start_state b \<Longrightarrow> 1 \<le> k \<Longrightarrow> k \<le> rows b * columns b - 1 \<Longrightarrow>
   set draws \<subseteq> grid_cells b \<Longrightarrow> put_mines b k draws = Some (r, b') \<Longrightarrow>
   r = Inr () \<and> grid_cells b' = grid_cells b \<and> int (card (mine_cells b')) = k \<and>
   (\<forall>y \<in> grid_cells b'. \<not> is_mine b' y \<longrightarrow>
      card (mine_neighbours b' y) \<le> 8 \<and>
      get_value b' (fst y) (snd y) = Inr (''0123456789'' ! card (mine_neighbours b' y)))"
proof -
  assume wf: "wf_board b" and st: "start_state b" and k: "1 \<le> k" "k \<le> rows b * columns b - 1"
    and dr: "set draws \<subseteq> grid_cells b" and pm: "put_mines b k draws = Some (r, b')"
  have r: "r = Inr ()" by (rule put_mines_no_error [OF wf st k dr pm])
  note ok = put_mines_success [OF wf pm [unfolded r]]
  have g: "grid_cells b' = grid_cells b" using ok(5,6) by (simp add: grid_cells_def)
  have c: "int (card (mine_cells b')) = k" using ok(7) start_state_no_mines [OF st] by simp
  have v: "\<forall>y \<in> grid_cells b'. \<not> is_mine b' y \<longrightarrow>
      card (mine_neighbours b' y) \<le> 8 \<and>
      get_value b' (fst y) (snd y) = Inr (''0123456789'' ! card (mine_neighbours b' y))"
  proof (intro ballI impI)
    fix y assume yg: "y \<in> grid_cells b'" and nm: "\<not> is_mine b' y"
    have le: "card (mine_neighbours b' y) \<le> 8"
      using mines_around_bounds(2) [of b' y] by (simp add: mines_around_card)
    have "cell_of b' y = str_int (mines_around b' y) @ ''H''" using ok(8) yg nm by blast
    then have "cval b' y = ''0123456789'' ! card (mine_neighbours b' y)"
      using str_int_digit(1) [OF mines_around_bounds, of b' y]
      by (simp add: cval_def mines_around_card)
    moreover have "get_value b' (fst y) (snd y) = Inr (cval b' y)"
      using get_value_wf [OF ok(4), of "fst y" "snd y"] yg by simp
    ultimately show "card (mine_neighbours b' y) \<le> 8 \<and>
      get_value b' (fst y) (snd y) = Inr (''0123456789'' ! card (mine_neighbours b' y))"
      using le by simp
  qed
  from r g c v show ?thesis by blast
qed

theorem put_mines_places_and_counts_witness:
  "put_mines \<lparr> rows = 1, columns = 2, board = [[''0H'', ''0H'']] \<rparr> 1 [(0, 1), (0, 0)] =
     Some (Inr (), \<lparr> rows = 1, columns = 2, board = [[''1H'', ''*H'']] \<rparr>) \<and>
   int (card (mine_cells \<lparr> rows = 1, columns = 2, board = [[''1H'', ''*H'']] \<rparr>)) = 1 \<and>
   get_value \<lparr> rows = 1, columns = 2, board = [[''1H'', ''*H'']] \<rparr> 0 0 =
     Inr (''0123456789'' ! card (mine_neighbours \<lparr> rows = 1, columns = 2, board = [[''1H'', ''*H'']] \<rparr> (0, 0)))"
proof -
  let ?b = "\<lparr> rows = 1, columns = 2, board = [[''0H'', ''0H'']] \<rparr>"
  let ?b' = "\<lparr> rows = 1, columns = 2, board = [[''1H'', ''*H'']] \<rparr>"
  have g: "grid_cells ?b = {(0, 0), (0, 1)}" "grid_cells ?b' = {(0, 0), (0, 1)}"
    by (auto simp: grid_cells_def)
  have h1: "wf_board ?b" by (simp add: wf_board_def)
  have h2: "start_state ?b" by (simp add: start_state_def g cval_def revealed_def cell_of_def)
  have h3: "(1::int) \<le> 1" "1 \<le> rows ?b * columns ?b - 1" by simp_all
  have h4: "set [(0, 1), (0, 0)] \<subseteq> grid_cells ?b" by (simp add: g)
  have h5: "put_mines ?b 1 [(0, 1), (0, 0)] = Some (Inr (), ?b')" by (rule put_mines_example)
  have nm: "(0, 0) \<in> grid_cells ?b'" "\<not> is_mine ?b' (0, 0)"
    by (simp_all add: g is_mine_def cval_def cell_of_def)
  from put_mines_places_and_counts [OF h1 h2 h3 h4 h5] nm h5 show ?thesis by auto
qed

text \<open>
  C8. On a well-formed board \<open>put_mines\<close> raises \<open>ScatterException\<close> and leaves the
  board as it was when the count is below 1, when it is above \<open>rows * columns - 1\<close>, or
  when some cell is not \<open>0H\<close>. After a call that succeeded, every further call, with any
  count and any draws, raises \<open>ScatterException\<close> and changes nothing.
\<close>

theorem put_mines_refuses:
  "wf_board b \<Longrightarrow>
   (mines < 1 \<or> mines > rows b * columns b - 1 \<or> \<not> start_state b \<longrightarrow>
      put_mines b mines draws = Some (Inl ScatterException, b)) \<and>
   (\<forall>u b'. put_mines b mines draws = Some (Inr u, b') \<longrightarrow>
      put_mines b' mines2 draws2 = Some (Inl ScatterException, b'))"
proof -
  assume wf: "wf_board b"
  have first: "mines < 1 \<or> mines > rows b * columns b - 1 \<or> \<not> start_state b \<longrightarrow>
      put_mines b mines draws = Some (Inl ScatterException, b)"
    using put_mines_invalid_count [of mines b draws] put_mines_not_start [OF wf, of mines draws]
    by blast
  have second: "put_mines b' mines2 draws2 = Some (Inl ScatterException, b')"
    if pm: "put_mines b mines draws = Some (Inr u, b')" for u b'
  proof -
    note ok = put_mines_success [OF wf pm]
    have "0 < int (card (mine_cells b'))" using ok(1,7) by simp
    then have "mine_cells b' \<noteq> {}" by auto
    then obtain y where y: "y \<in> grid_cells b'" "cval b' y = CHR ''*''"
      by (auto simp: mine_cells_def is_mine_def)
    have "\<not> (cval b' y = CHR ''0'' \<and> \<not> revealed b' y)" using y(2) by simp
    then have "\<not> start_state b'" unfolding start_state_def using y(1) by blast
    then show ?thesis by (rule put_mines_not_start [OF ok(4)])
  qed
  from first second show ?thesis by blast
qed

theorem put_mines_refuses_witness:
  "put_mines \<lparr> rows = 1, columns = 2, board = [[''0H'', ''0H'']] \<rparr> 2 [(0, 0), (0, 1)] =
     Some (Inl ScatterException, \<lparr> rows = 1, columns = 2, board = [[''0H'', ''0H'']] \<rparr>) \<and>
   put_mines \<lparr> rows = 1, columns = 2, board = [[''1H'', ''*H'']] \<rparr> 1 [(0, 0)] =
     Some (Inl ScatterException, \<lparr> rows = 1, columns = 2, board = [[''1H'', ''*H'']] \<rparr>)"
proof -
  let ?b = "\<lparr> rows = 1, columns = 2, board = [[''0H'', ''0H'']] \<rparr>"
  let ?b' = "\<lparr> rows = 1, columns = 2, board = [[''1H'', ''*H'']] \<rparr>"
  have h1: "wf_board ?b" by (simp add: wf_board_def)
  have h5: "put_mines ?b 1 [(0, 1), (0, 0)] = Some (Inr (), ?b')" by (rule put_mines_example)
  have big: "(2::int) > rows ?b * columns ?b - 1" by simp
  from put_mines_refuses [OF h1, of 2 "[(0, 0), (0, 1)]"] big
  have 1: "put_mines ?b 2 [(0, 0), (0, 1)] = Some (Inl ScatterException, ?b)" by blast
  from put_mines_refuses [OF h1, of 1 "[(0, 1), (0, 0)]" 1 "[(0, 0)]"] h5
  have 2: "put_mines ?b' 1 [(0, 0)] = Some (Inl ScatterException, ?b')" by blast
  from 1 2 show ?thesis by simp
qed

section \<open>Saving, then loading\<close>

text \<open>
  C6. For a valid board \<open>g\<close>, \<open>save_board\<close> produces a text; reading that text line by
  line as a file, dropping the two dimension lines and giving the rest to \<open>load_board\<close>
  on any board of the same dimensions succeeds and yields \<open>g\<close> itself, although every
  saved row ends in a space before its line feed.
\<close>

theorem save_load_roundtrip:
  "valid_board g \<Longrightarrow> rows b0 = rows g \<Longrightarrow> columns b0 = columns g \<Longrightarrow>
   \<exists>text. save_board g = Inr text \<and> load_board b0 (drop 2 (py_lines text)) = (Inr (), g)"
proof -
  assume v: "valid_board g" and dims: "rows b0 = rows g" "columns b0 = columns g"
  from v have wf: "wf_board g" and pos: "1 \<le> rows g" "1 \<le> columns g"
    and cells: "\<forall>r \<in> set (board g). \<forall>c \<in> set r. valid_cell c"
    by (simp_all add: valid_board_def)
  let ?text = "str_int (rows g) @ [CHR 0x0A] @ str_int (columns g) @ [CHR 0x0A] @
               concat (map row_line (board g))"
  have sv: "save_board g = Inr ?text" by (rule save_board_wf [OF wf])
  have ls: "drop 2 (py_lines ?text) = map row_line (board g)"
    by (simp only: py_lines_save [OF cells]) simp
  have len: "int (length (board g)) = rows g" using wf by (simp add: wf_board_def)
  have rowsok: "\<forall>r \<in> set (board g). r \<noteq> [] \<and> int (length r) = columns (b0\<lparr>board := []\<rparr>) \<and>
                  (\<forall>c \<in> set r. valid_cell c)"
  proof
    fix r assume r: "r \<in> set (board g)"
    then have "int (length r) = columns g" using wf by (simp add: wf_board_def)
    then show "r \<noteq> [] \<and> int (length r) = columns (b0\<lparr>board := []\<rparr>) \<and>
                  (\<forall>c \<in> set r. valid_cell c)"
      using pos(2) dims(2) cells r by auto
  qed
  have ll: "load_loop (b0\<lparr>board := []\<rparr>) 0 (map row_line (board g)) =
              (Inr (0 + int (length (board g))), b0\<lparr>board := [] @ board g\<rparr>)"
    using load_loop_rows [OF rowsok, of 0] by simp
  have eq: "b0\<lparr>board := board g\<rparr> = g"
    by (rule Board.equality) (simp_all add: dims)
  have "load_board b0 (map row_line (board g)) = (Inr (), g)"
    using pos(1) dims(1) by (simp add: load_board_def ll len eq)
  then show ?thesis using sv ls by simp
qed

theorem save_load_roundtrip_witness:
  "save_board \<lparr> rows = 2, columns = 2, board = [[''1H'', ''*S''], [''1S'', ''1H'']] \<rparr> =
     Inr (''2'' @ [CHR 0x0A] @ ''2'' @ [CHR 0x0A] @ ''1H *S '' @ [CHR 0x0A] @ ''1S 1H '' @ [CHR 0x0A]) \<and>
   load_board \<lparr> rows = 2, columns = 2, board = [] \<rparr>
     [''1H *S '' @ [CHR 0x0A], ''1S 1H '' @ [CHR 0x0A]] =
     (Inr (), \<lparr> rows = 2, columns = 2, board = [[''1H'', ''*S''], [''1S'', ''1H'']] \<rparr>)"
proof -
  let ?g = "\<lparr> rows = 2, columns = 2, board = [[''1H'', ''*S''], [''1S'', ''1H'']] \<rparr>"
  let ?b0 = "\<lparr> rows = 2, columns = 2, board = [] \<rparr>"
  let ?text = "''2'' @ [CHR 0x0A] @ ''2'' @ [CHR 0x0A] @ ''1H *S '' @ [CHR 0x0A] @ ''1S 1H '' @ [CHR 0x0A]"
  have v: "valid_board ?g" by (simp add: valid_board_def wf_board_def valid_cell_def)
  have sv: "save_board ?g = Inr ?text" by code_simp
  have pl: "drop 2 (py_lines ?text) = [''1H *S '' @ [CHR 0x0A], ''1S 1H '' @ [CHR 0x0A]]" by simp
  from save_load_roundtrip [OF v, of ?b0] sv pl show ?thesis by simp
qed


end
